theory Spec2Isabelle
  imports Complex_Main "HOL-Library.AList" "HOL-Library.List_Lexorder" "HOL-Library.Multiset"
    "HOL-Library.Log_Nat" "HOL-Library.Code_Target_Nat"
begin

section \<open>Strings and numbers of the host language\<close>

text \<open>
  A JavaScript string is a sequence of UTF-16 code units; it is modelled as the list of
  their numbers, so that the literals of the source that are not ASCII can be written
  down (\<open>0x62D2\<close> is the first code unit of the rejection literal).  An ASCII literal
  is written \<open>js ''...''\<close>.

  Counters of the source are JavaScript numbers that only ever hold natural numbers
  (they start at \<open>0\<close> and are incremented or added); they are modelled as \<open>nat\<close>.
  Quotients, percentages and their sums are doubles: every division, multiplication
  and addition of the source is the exact operation followed by the rounding to the
  nearest double (section "Numbers").
\<close>

type_synonym jsstr = "nat list"

definition js :: "string \<Rightarrow> jsstr" where
  "js s = map of_char s"

text \<open>White space and line terminators: what \<open>String.prototype.trim\<close> strips and what
  the class \<open>\s\<close> of a regular expression matches.\<close>

definition isWhiteSpace :: "nat \<Rightarrow> bool" where
  "isWhiteSpace c \<longleftrightarrow>
     c = 0x09 \<or> c = 0x0A \<or> c = 0x0B \<or> c = 0x0C \<or> c = 0x0D \<or> c = 0x20 \<or> c = 0xA0 \<or>
     c = 0x1680 \<or> (0x2000 \<le> c \<and> c \<le> 0x200A) \<or> c = 0x2028 \<or> c = 0x2029 \<or>
     c = 0x202F \<or> c = 0x205F \<or> c = 0x3000 \<or> c = 0xFEFF"

definition trim :: "jsstr \<Rightarrow> jsstr" where
  "trim s = rev (dropWhile isWhiteSpace (rev (dropWhile isWhiteSpace s)))"

text \<open>\<open>row[k]?.trim()\<close>: \<open>undefined\<close> (here \<open>None\<close>) when the column is absent.\<close>

definition optTrim :: "jsstr option \<Rightarrow> jsstr option" where
  "optTrim v = map_option trim v"

text \<open>Truthiness of a value that is a string or \<open>undefined\<close>.\<close>

definition truthy :: "jsstr option \<Rightarrow> bool" where
  "truthy v = (case v of None \<Rightarrow> False | Some s \<Rightarrow> s \<noteq> [])"

text \<open>\<open>s.split('&&')\<close>: the first argument is the piece being collected, reversed.\<close>

fun splitAmp :: "jsstr \<Rightarrow> jsstr \<Rightarrow> jsstr list" where
  "splitAmp cur [] = [rev cur]"
| "splitAmp cur [a] = [rev (a # cur)]"
| "splitAmp cur (a # b # rest) =
     (if a = 0x26 \<and> b = 0x26 then rev cur # splitAmp [] rest
      else splitAmp (a # cur) (b # rest))"

text \<open>
  \<open>s.split(/&&|\$\$|\+|[,\s\<dots>]+/)\<close>, the last class holding the comma, white space and
  the fullwidth comma \<open>0xFF0C\<close>.  \<open>matchDelim s\<close> is what is left of \<open>s\<close> after a match
  of the expression at its start: the alternatives are tried in order and the last one
  is greedy.  No alternative matches the empty string.
\<close>

definition isTagSepChar :: "nat \<Rightarrow> bool" where
  "isTagSepChar c \<longleftrightarrow> c = 0x2C \<or> isWhiteSpace c \<or> c = 0xFF0C"

fun matchDelim :: "jsstr \<Rightarrow> jsstr option" where
  "matchDelim [] = None"
| "matchDelim (a # rest) =
     (if a = 0x26 \<and> (case rest of b # _ \<Rightarrow> b = 0x26 | [] \<Rightarrow> False) then Some (tl rest)
      else if a = 0x24 \<and> (case rest of b # _ \<Rightarrow> b = 0x24 | [] \<Rightarrow> False) then Some (tl rest)
      else if a = 0x2B then Some rest
      else if isTagSepChar a then Some (dropWhile isTagSepChar rest)
      else None)"

lemma matchDelim_shorter: "matchDelim s = Some r \<Longrightarrow> length r < length s"
proof (cases s)
  case Nil
  assume "matchDelim s = Some r"
  with Nil show ?thesis by simp
next
  case (Cons a rest)
  assume m: "matchDelim s = Some r"
  have d: "length (dropWhile isTagSepChar rest) \<le> length rest"
    by (rule length_dropWhile_le)
  from m Cons d show ?thesis
    by (cases rest) (auto split: if_splits)
qed

function splitTags :: "jsstr \<Rightarrow> jsstr \<Rightarrow> jsstr list" where
  "splitTags cur [] = [rev cur]"
| "splitTags cur (a # rest) =
     (case matchDelim (a # rest) of
        Some r \<Rightarrow> rev cur # splitTags [] r
      | None \<Rightarrow> splitTags (a # cur) rest)"
  by pat_completeness auto
termination
proof (relation "measure (\<lambda>(cur, s). length s)")
  show "wf (measure (\<lambda>(cur, s). length s))" by simp
next
  fix cur :: jsstr and a rest x2
  assume "matchDelim (a # rest) = Some x2"
  then have "length x2 < length (a # rest)" by (rule matchDelim_shorter)
  then show "(([], x2), cur, a # rest) \<in> measure (\<lambda>(cur, s). length s)" by simp
next
  fix cur :: jsstr and a rest
  show "((a # cur, rest), cur, a # rest) \<in> measure (\<lambda>(cur, s). length s)" by simp
qed

section \<open>Column names and literals\<close>

definition COL_SYNC_STATUS :: jsstr where
  "COL_SYNC_STATUS = [0x540C, 0x6B65, 0x673A, 0x5BA1, 0x72B6, 0x6001]"

definition COL_ASYNC_STATUS :: jsstr where
  "COL_ASYNC_STATUS = [0x5F02, 0x6B65, 0x673A, 0x5BA1, 0x72B6, 0x6001]"

definition COL_HUMAN_STATUS :: jsstr where
  "COL_HUMAN_STATUS = [0x4EBA, 0x5BA1, 0x72B6, 0x6001]"

definition COL_SYNC_STRATEGY :: jsstr where
  "COL_SYNC_STRATEGY = [0x540C, 0x6B65, 0x673A, 0x5BA1, 0x547D, 0x4E2D, 0x7B56, 0x7565]"

definition COL_ASYNC_STRATEGY :: jsstr where
  "COL_ASYNC_STRATEGY = [0x5F02, 0x6B65, 0x673A, 0x5BA1, 0x547D, 0x4E2D, 0x7B56, 0x7565]"

definition COL_HUMAN_TAGS :: jsstr where
  "COL_HUMAN_TAGS = [0x4EBA, 0x5BA1, 0x6807, 0x7B7E]"

definition COL_ASYNC_TIME :: jsstr where
  "COL_ASYNC_TIME = [0x5F02, 0x6B65, 0x673A, 0x5BA1, 0x5165, 0x5BA1, 0x65F6, 0x95F4]"

text \<open>The status literals: rejected, pending, passed, submitted.\<close>

definition LIT_REJECT :: jsstr where
  "LIT_REJECT = [0x62D2, 0x7EDD]"

definition LIT_PENDING :: jsstr where
  "LIT_PENDING = [0x5F85, 0x5BA1]"

definition LIT_PASS :: jsstr where
  "LIT_PASS = [0x901A, 0x8FC7]"

definition LIT_SENT :: jsstr where
  "LIT_SENT = [0x9001, 0x5BA1]"

definition WEEKLY_KEY :: jsstr where
  "WEEKLY_KEY = js ''ALL_WEEKLY_REPORT''"

definition WEEKLY_LABEL :: jsstr where
  "WEEKLY_LABEL = [0x6574, 0x4F53, 0x5468, 0x62A5]"

text \<open>The stop list of the tag statistics.\<close>

definition TAG_STOP_LIST :: "jsstr list" where
  "TAG_STOP_LIST =
     [LIT_PASS, LIT_REJECT, LIT_PENDING, LIT_SENT, js ''null'', [0x65E0],
      [0x5185, 0x5BB9, 0x6D89, 0x53CA],
      [0x8BF7, 0x4FEE, 0x6539, 0x540E, 0x91CD, 0x8BD5]]"

section \<open>Lookup tables\<close>

text \<open>
  \<open>STRATEGY_MAPPING\<close> and \<open>TAG_MERGE_MAPPING\<close> are object literals, and
  \<open>TABLE[key] || key\<close> also finds what every object inherits from \<open>Object.prototype\<close>:
  for the twelve names below the lookup yields that inherited member (a function or
  object, truthy) and not the key.  A map key is therefore a string or such a member,
  told apart by its name.
\<close>

datatype jskey = Str jsstr | Inherited jsstr

definition OBJECT_PROTOTYPE_NAMES :: "jsstr list" where
  "OBJECT_PROTOTYPE_NAMES =
     [js ''constructor'', js ''__defineGetter__'', js ''__defineSetter__'',
      js ''hasOwnProperty'', js ''__lookupGetter__'', js ''__lookupSetter__'',
      js ''isPrototypeOf'', js ''propertyIsEnumerable'', js ''toString'',
      js ''valueOf'', js ''__proto__'', js ''toLocaleString'']"

definition STRATEGY_MAPPING :: "(jsstr \<times> jsstr) list" where
  "STRATEGY_MAPPING =
     [(js ''huiboxing_wenxin_model'',
         js ''huiboxing'' @ [0x6587, 0x5FC3, 0x5927, 0x6A21, 0x578B]),
      (js ''service_digital_human_check'',
         [0x6570, 0x5B57, 0x4EBA, 0x7269, 0x6599, 0x673A, 0x5BA1]),
      (js ''service_sync_word'',
         [0x4E1A, 0x52A1, 0x7EBF, 0x8BCD, 0x8868, 0x7B56, 0x7565]),
      (js ''qr_code_detect'',
         [0x4E8C, 0x7EF4, 0x7801, 0x56FE, 0x7247, 0x8BC6, 0x522B, 0x6A21, 0x578B]),
      (js ''sensitive_img_model'',
         [0x654F, 0x611F, 0x56FE, 0x7247, 0x6A21, 0x578B]),
      (js ''img_ocr_strategy'',
         [0x56FE, 0x7247] @ js ''ocr'' @ [0x7B56, 0x7565]),
      (js ''service_variant_word_check'',
         [0x4E60, 0x5F6D, 0x53D8, 0x4F53, 0x8BCD, 0x8868]),
      (js ''duxiaodian_review'',
         [0x5EA6, 0x5C0F, 0x5E97, 0x5BA1, 0x6838]),
      (js ''service_short_text_check'',
         [0x77ED, 0x6587, 0x672C, 0x673A, 0x5BA1]),
      (js ''sensitive_hardface'',
         [0x654F, 0x611F, 0x4EBA, 0x8138, 0x6A21, 0x578B]),
      (js ''service_word_3s_check'',
         js ''3S'' @ [0x654F, 0x611F, 0x8BCD, 0x7B56, 0x7565])]"

text \<open>Every entry of \<open>TAG_MERGE_MAPPING\<close> is commented out in the source.\<close>

definition TAG_MERGE_MAPPING :: "(jsstr \<times> jsstr) list" where
  "TAG_MERGE_MAPPING = []"

text \<open>\<open>TABLE[key] || key\<close>; an own entry that is the empty string would be falsy.\<close>

definition lookupOr :: "(jsstr \<times> jsstr) list \<Rightarrow> jsstr \<Rightarrow> jskey" where
  "lookupOr table key =
     (case map_of table key of
        Some v \<Rightarrow> (if v = [] then Str key else Str v)
      | None \<Rightarrow> (if key \<in> set OBJECT_PROTOTYPE_NAMES then Inherited key else Str key))"

section \<open>The date extractor\<close>

definition isDigit :: "nat \<Rightarrow> bool" where
  "isDigit c \<longleftrightarrow> 0x30 \<le> c \<and> c \<le> 0x39"

text \<open>The two separator classes: dot, hyphen, slash, and the year or the month sign.\<close>

definition isSep1 :: "nat \<Rightarrow> bool" where
  "isSep1 c \<longleftrightarrow> c = 0x2E \<or> c = 0x2D \<or> c = 0x2F \<or> c = 0x5E74"

definition isSep2 :: "nat \<Rightarrow> bool" where
  "isSep2 c \<longleftrightarrow> c = 0x2E \<or> c = 0x2D \<or> c = 0x2F \<or> c = 0x6708"

text \<open>The last group \<open>(\d{1,2})\<close>: greedy, nothing has to follow.\<close>

fun matchDay :: "jsstr \<Rightarrow> jsstr option" where
  "matchDay [] = None"
| "matchDay [a] = (if isDigit a then Some [a] else None)"
| "matchDay (a # b # rest) =
     (if isDigit a then (if isDigit b then Some [a, b] else Some [a]) else None)"

text \<open>\<open>(\d{1,2})[sep](\d{1,2})\<close>: two digits for the month are tried first, then one.\<close>

definition matchMonth2 :: "jsstr \<Rightarrow> (jsstr \<times> jsstr) option" where
  "matchMonth2 s =
     (case s of
        a # b # c # rest \<Rightarrow>
          (if isDigit a \<and> isDigit b \<and> isSep2 c
           then map_option (\<lambda>d. ([a, b], d)) (matchDay rest) else None)
      | _ \<Rightarrow> None)"

definition matchMonth1 :: "jsstr \<Rightarrow> (jsstr \<times> jsstr) option" where
  "matchMonth1 s =
     (case s of
        a # c # rest \<Rightarrow>
          (if isDigit a \<and> isSep2 c
           then map_option (\<lambda>d. ([a], d)) (matchDay rest) else None)
      | _ \<Rightarrow> None)"

definition matchMonthDay :: "jsstr \<Rightarrow> (jsstr \<times> jsstr) option" where
  "matchMonthDay s =
     (case matchMonth2 s of Some r \<Rightarrow> Some r | None \<Rightarrow> matchMonth1 s)"

text \<open>The whole expression, anchored at the start of \<open>s\<close>: year, month, day.\<close>

definition matchAt :: "jsstr \<Rightarrow> (jsstr \<times> jsstr \<times> jsstr) option" where
  "matchAt s =
     (case s of
        y1 # y2 # y3 # y4 # p # rest \<Rightarrow>
          (if isDigit y1 \<and> isDigit y2 \<and> isDigit y3 \<and> isDigit y4 \<and> isSep1 p
           then map_option (\<lambda>(m, d). ([y1, y2, y3, y4], m, d)) (matchMonthDay rest)
           else None)
      | _ \<Rightarrow> None)"

text \<open>\<open>dateStr.match(...)\<close>: the leftmost position at which the expression matches.\<close>

fun regexMatch :: "jsstr \<Rightarrow> (jsstr \<times> jsstr \<times> jsstr) option" where
  "regexMatch [] = None"
| "regexMatch (c # cs) =
     (case matchAt (c # cs) of Some r \<Rightarrow> Some r | None \<Rightarrow> regexMatch cs)"

definition padStart2 :: "jsstr \<Rightarrow> jsstr" where
  "padStart2 s = replicate (2 - length s) 0x30 @ s"

definition extractDate :: "jsstr option \<Rightarrow> jsstr option" where
  "extractDate dateStr =
     (if \<not> truthy dateStr then None
      else case regexMatch (the dateStr) of
             Some (year, month, day) \<Rightarrow>
               Some (year @ [0x2D] @ padStart2 month @ [0x2D] @ padStart2 day)
           | None \<Rightarrow> None)"

section \<open>Numbers\<close>

text \<open>
  A Number of the language is a double: a finite value, one of the two infinities, or
  NaN.  A finite double is held as its exact value, a rational number.  The two zeros
  are one value here: they differ only as divisors, and in the functions modelled no
  division has a divisor zero (a zero denominator is tested for before, and the number
  of days is at least 1); \<open>toFixed\<close> renders both as zero.
\<close>

datatype jsnum = Finite rat | PosInf | NegInf | NaN

definition pow2 :: "int \<Rightarrow> rat" where
  "pow2 e = (if 0 \<le> e then 2 ^ nat e else 1 / 2 ^ nat (- e))"

text \<open>
  The exponent of a positive value \<open>x = p / q\<close>: the \<open>e\<close> with \<open>2^e \<le> x < 2^(e+1)\<close>.
  It is the difference of the bit lengths of \<open>p\<close> and \<open>q\<close>, or one less.
\<close>

definition floorLog2 :: "rat \<Rightarrow> int" where
  "floorLog2 x =
     (case quotient_of x of (p, q) \<Rightarrow>
        (let c = bitlen p - bitlen q in if pow2 c \<le> x then c else c - 1))"

text \<open>The nearest integer, the even one of two equally near.\<close>

definition roundHalfEven :: "rat \<Rightarrow> int" where
  "roundHalfEven y =
     (let f = \<lfloor>y\<rfloor>; d = y - of_int f
      in if d < 1 / 2 then f else if 1 / 2 < d then f + 1 else if even f then f else f + 1)"

text \<open>
  The rounding of IEEE 754 binary64 arithmetic, to nearest with ties to even, which
  every arithmetic operation of the language applies to its exact result.  A double
  has 53 significant bits: a value of exponent \<open>e\<close> is rounded to a multiple of
  \<open>2^(e - 52)\<close>, and below the least normal exponent \<open>-1022\<close> to a multiple of
  \<open>2^(-1074)\<close>.  A value that rounds to \<open>2^1024\<close> or more is an infinity.
\<close>

definition fl :: "rat \<Rightarrow> jsnum" where
  "fl x =
     (if x = 0 then Finite 0
      else let a = \<bar>x\<bar>;
               e = max (floorLog2 a) (- 1022);
               q = pow2 (e - 52);
               m = roundHalfEven (a / q)
           in if 1024 \<le> e \<or> (e = 1023 \<and> m = 2 ^ 53)
              then (if x < 0 then NegInf else PosInf)
              else Finite (if x < 0 then - (of_int m * q) else of_int m * q))"

text \<open>A count held in a Number.  The counts that enter a quotient are at most twice the
  number of rows, which is below \<open>2^32\<close>, the bound of the length of an array; and a
  whole number below \<open>2^53\<close> is a double (\<open>fl_nat_exact\<close> below).\<close>

definition numOfNat :: "nat \<Rightarrow> jsnum" where
  "numOfNat n = Finite (rat_of_nat n)"

definition isNegative :: "jsnum \<Rightarrow> bool" where
  "isNegative x = (case x of Finite v \<Rightarrow> v < 0 | NegInf \<Rightarrow> True | _ \<Rightarrow> False)"

definition signedInf :: "bool \<Rightarrow> jsnum" where
  "signedInf negative = (if negative then NegInf else PosInf)"

text \<open>The operators \<open>+\<close>, \<open>*\<close> and \<open>/\<close> on Numbers.\<close>

definition fadd :: "jsnum \<Rightarrow> jsnum \<Rightarrow> jsnum" where
  "fadd x y =
     (case (x, y) of
        (Finite a, Finite b) \<Rightarrow> fl (a + b)
      | (NaN, _) \<Rightarrow> NaN
      | (_, NaN) \<Rightarrow> NaN
      | (Finite a, _) \<Rightarrow> y
      | (_, Finite b) \<Rightarrow> x
      | _ \<Rightarrow> if x = y then x else NaN)"

definition fmul :: "jsnum \<Rightarrow> jsnum \<Rightarrow> jsnum" where
  "fmul x y =
     (case (x, y) of
        (Finite a, Finite b) \<Rightarrow> fl (a * b)
      | (NaN, _) \<Rightarrow> NaN
      | (_, NaN) \<Rightarrow> NaN
      | _ \<Rightarrow> if x = Finite 0 \<or> y = Finite 0 then NaN
             else signedInf (isNegative x \<noteq> isNegative y))"

definition fdiv :: "jsnum \<Rightarrow> jsnum \<Rightarrow> jsnum" where
  "fdiv x y =
     (case (x, y) of
        (Finite a, Finite b) \<Rightarrow>
          (if b = 0 then (if a = 0 then NaN else signedInf (a < 0)) else fl (a / b))
      | (NaN, _) \<Rightarrow> NaN
      | (_, NaN) \<Rightarrow> NaN
      | (Finite a, _) \<Rightarrow> Finite 0
      | (_, Finite b) \<Rightarrow> signedInf (isNegative x \<noteq> (b < 0))
      | _ \<Rightarrow> NaN)"

section \<open>Number formatting\<close>

datatype js_error = RangeError

function digitsOf :: "nat \<Rightarrow> jsstr" where
  "digitsOf n = (if n < 10 then [0x30 + n] else digitsOf (n div 10) @ [0x30 + n mod 10])"
  by pat_completeness auto
termination
  by (relation "measure id") auto

declare digitsOf.simps [simp del]

text \<open>
  The digits of \<open>Number.prototype.toFixed\<close> for a value \<open>0 \<le> x < 10^21\<close> and \<open>f\<close>
  fraction digits: \<open>n\<close> is the integer for which \<open>n / 10^f - x\<close> is closest to zero,
  the larger one of two; its decimal digits are padded with zeros to \<open>f + 1\<close> places and
  the point is put before the last \<open>f\<close>.
\<close>

definition fixedDigits :: "rat \<Rightarrow> nat \<Rightarrow> jsstr" where
  "fixedDigits x f =
     (let n = nat \<lfloor>x * 10 ^ f + 1 / 2\<rfloor>;
          m = (if n = 0 then [0x30] else digitsOf n)
      in if f \<noteq> 0 then
           (let k = length m;
                m' = (if k \<le> f then replicate (f + 1 - k) 0x30 @ m else m);
                k' = (if k \<le> f then f + 1 else k)
            in take (k' - f) m' @ [0x2E] @ drop (k' - f) m')
         else m)"

text \<open>
  \<open>x.toFixed(fractionDigits)\<close>.  It throws a \<open>RangeError\<close> for fewer than 0 or more
  than 100 digits; it renders a value that is not finite by its name; from \<open>10^21\<close> on
  it returns \<open>Number::toString\<close> of the value, an exponent notation that is not
  expanded here: it is the parameter \<open>numberToString\<close>.  Below that it renders the
  exact value of the double.
\<close>

definition toFixed :: "(rat \<Rightarrow> jsstr) \<Rightarrow> jsnum \<Rightarrow> int \<Rightarrow> js_error + jsstr" where
  "toFixed numberToString x fractionDigits =
     (if fractionDigits < 0 \<or> 100 < fractionDigits then Inl RangeError
      else case x of
             NaN \<Rightarrow> Inr (js ''NaN'')
           | PosInf \<Rightarrow> Inr (js ''Infinity'')
           | NegInf \<Rightarrow> Inr (js ''-Infinity'')
           | Finite v \<Rightarrow>
               (let s = (if v < 0 then [0x2D] else []); v' = \<bar>v\<bar>
                in if 10 ^ 21 \<le> v' then Inr (s @ numberToString v')
                   else Inr (s @ fixedDigits v' (nat fractionDigits))))"

definition formatPercent ::
  "(rat \<Rightarrow> jsstr) \<Rightarrow> jsnum \<Rightarrow> jsnum \<Rightarrow> int \<Rightarrow> js_error + jsstr" where
  "formatPercent numberToString numerator denominator decimals =
     (if denominator = Finite 0 then toFixed numberToString (Finite 0) decimals
      else toFixed numberToString (fmul (fdiv numerator denominator) (Finite 100)) decimals)"

definition formatDecimal :: "(rat \<Rightarrow> jsstr) \<Rightarrow> jsnum \<Rightarrow> int \<Rightarrow> js_error + jsstr" where
  "formatDecimal numberToString val decimals = toFixed numberToString val decimals"

text \<open>An exception ends the computation: the rest runs only on a returned value.\<close>

definition bindE :: "'e + 'a \<Rightarrow> ('a \<Rightarrow> 'e + 'b) \<Rightarrow> 'e + 'b" where
  "bindE r f = (case r of Inl e \<Rightarrow> Inl e | Inr v \<Rightarrow> f v)"

section \<open>The per-partition aggregator\<close>

type_synonym CsvRow = "jsstr \<Rightarrow> jsstr option"

record StrategyStats =
  name :: jskey
  hitCount :: nat
  humanReviewCount :: nat
  pendingCount :: nat
  violationCount :: nat

record BasicStats =
  totalRows :: nat
  machineRejectCount :: nat
  recallCount :: nat
  humanViolationCount :: nat
  blackSampleTotal :: nat

text \<open>
  An ES \<open>Map\<close> and an ES \<open>Set\<close> keep their keys in insertion order, which the sorted
  lists of the report depend on: a \<open>Map\<close> is an association list in insertion order
  (\<open>map_of\<close> is \<open>get\<close>, \<open>AList.update\<close> is \<open>set\<close>: it replaces the value of a key in
  place and appends a new key), a \<open>Set\<close> a list without repetitions.
\<close>

definition Set_add :: "'a list \<Rightarrow> 'a \<Rightarrow> 'a list" where
  "Set_add s x = (if x \<in> set s then s else s @ [x])"

subsection \<open>The signals of one row\<close>

definition isMachineReject :: "CsvRow \<Rightarrow> bool" where
  "isMachineReject row \<longleftrightarrow>
     optTrim (row COL_SYNC_STATUS) = Some LIT_REJECT \<or>
     optTrim (row COL_ASYNC_STATUS) = Some LIT_REJECT"

definition humanStatus :: "CsvRow \<Rightarrow> jsstr option" where
  "humanStatus row = optTrim (row COL_HUMAN_STATUS)"

definition isHumanSent :: "CsvRow \<Rightarrow> bool" where
  "isHumanSent row = truthy (humanStatus row)"

definition isHumanViolation :: "CsvRow \<Rightarrow> bool" where
  "isHumanViolation row \<longleftrightarrow> humanStatus row = Some LIT_REJECT"

definition isHumanPending :: "CsvRow \<Rightarrow> bool" where
  "isHumanPending row \<longleftrightarrow> humanStatus row = Some LIT_PENDING"

definition rawStrategyValue :: "CsvRow \<Rightarrow> jsstr option" where
  "rawStrategyValue row =
     (let v = optTrim (row COL_SYNC_STRATEGY)
      in if \<not> truthy v then optTrim (row COL_ASYNC_STRATEGY) else v)"

subsection \<open>Strategy statistics\<close>

text \<open>
  The body of \<open>allStrategies.forEach\<close>.  The source creates a missing entry with zero
  counts and then increments the entry found; here the entry found or the fresh one is
  incremented and stored, which appends a fresh one at the same place.
\<close>

definition freshStats :: "jskey \<Rightarrow> StrategyStats" where
  "freshStats strategyName =
     \<lparr>name = strategyName, hitCount = 0, humanReviewCount = 0, pendingCount = 0,
      violationCount = 0\<rparr>"

definition getOrCreate :: "(jskey \<times> StrategyStats) list \<Rightarrow> jskey \<Rightarrow> StrategyStats" where
  "getOrCreate sm strategyName =
     (case map_of sm strategyName of Some s \<Rightarrow> s | None \<Rightarrow> freshStats strategyName)"

definition bumpStats :: "CsvRow \<Rightarrow> StrategyStats \<Rightarrow> StrategyStats" where
  "bumpStats row stats =
     stats\<lparr>hitCount := hitCount stats + 1,
           humanReviewCount :=
             (if isHumanSent row then humanReviewCount stats + 1
              else humanReviewCount stats),
           pendingCount :=
             (if isHumanPending row then pendingCount stats + 1 else pendingCount stats),
           violationCount :=
             (if isHumanViolation row then violationCount stats + 1
              else violationCount stats)\<rparr>"

definition strategyStep ::
  "CsvRow \<Rightarrow> (jskey \<times> StrategyStats) list \<Rightarrow> jsstr \<Rightarrow> (jskey \<times> StrategyStats) list" where
  "strategyStep row sm rawName =
     (let cleanName = trim rawName
      in if cleanName = [] then sm
         else
           (let strategyName = lookupOr STRATEGY_MAPPING cleanName
            in AList.update strategyName (bumpStats row (getOrCreate sm strategyName)) sm))"

definition rowStrategies ::
  "CsvRow \<Rightarrow> (jskey \<times> StrategyStats) list \<Rightarrow> (jskey \<times> StrategyStats) list" where
  "rowStrategies row sm =
     (case rawStrategyValue row of
        None \<Rightarrow> sm
      | Some v \<Rightarrow> (if v = [] then sm else foldl (strategyStep row) sm (splitAmp [] v)))"

subsection \<open>Tag statistics\<close>

definition isInvalidTag :: "jsstr \<Rightarrow> bool" where
  "isInvalidTag tag \<longleftrightarrow> tag = [] \<or> tag \<in> set TAG_STOP_LIST"

text \<open>\<open>String(row[...] || '')\<close> and the split of it.\<close>

definition tagTokens :: "CsvRow \<Rightarrow> jsstr list" where
  "tagTokens row =
     splitTags [] (case row COL_HUMAN_TAGS of None \<Rightarrow> [] | Some v \<Rightarrow> v)"

text \<open>The body of \<open>tokens.forEach\<close>, and the set it fills.\<close>

definition tokenStep :: "jskey list \<Rightarrow> jsstr \<Rightarrow> jskey list" where
  "tokenStep uniqueTags t =
     (let tag = trim t
      in if isInvalidTag tag then uniqueTags
         else Set_add uniqueTags (lookupOr TAG_MERGE_MAPPING tag))"

definition uniqueTagsInRow :: "CsvRow \<Rightarrow> jskey list" where
  "uniqueTagsInRow row = foldl tokenStep [] (tagTokens row)"

text \<open>\<open>tagMap.get(tag) || 0\<close> and \<open>tagMap.set(tag, (tagMap.get(tag) || 0) + 1)\<close>\<close>

definition getOrZero :: "(jskey \<times> nat) list \<Rightarrow> jskey \<Rightarrow> nat" where
  "getOrZero tm tag = (case map_of tm tag of None \<Rightarrow> 0 | Some c \<Rightarrow> c)"

definition tagStep :: "(jskey \<times> nat) list \<Rightarrow> jskey \<Rightarrow> (jskey \<times> nat) list" where
  "tagStep tm tag = AList.update tag (getOrZero tm tag + 1) tm"

definition rowTags :: "CsvRow \<Rightarrow> (jskey \<times> nat) list \<Rightarrow> (jskey \<times> nat) list" where
  "rowTags row tm =
     (if isHumanViolation row then foldl tagStep tm (uniqueTagsInRow row) else tm)"

subsection \<open>The loop over the rows\<close>

record AnalyzeState =
  st_machineRejectCount :: nat
  st_recallCount :: nat
  st_humanViolationCount :: nat
  st_strategyMap :: "(jskey \<times> StrategyStats) list"
  st_tagMap :: "(jskey \<times> nat) list"

definition initState :: AnalyzeState where
  "initState =
     \<lparr>st_machineRejectCount = 0, st_recallCount = 0, st_humanViolationCount = 0,
      st_strategyMap = [], st_tagMap = []\<rparr>"

definition rowStep :: "AnalyzeState \<Rightarrow> CsvRow \<Rightarrow> AnalyzeState" where
  "rowStep st row =
     \<lparr>st_machineRejectCount =
        (if isMachineReject row then st_machineRejectCount st + 1
         else st_machineRejectCount st),
      st_recallCount =
        (if isHumanSent row then st_recallCount st + 1 else st_recallCount st),
      st_humanViolationCount =
        (if isHumanViolation row then st_humanViolationCount st + 1
         else st_humanViolationCount st),
      st_strategyMap = rowStrategies row (st_strategyMap st),
      st_tagMap = rowTags row (st_tagMap st)\<rparr>"

record AnalyzeResult = BasicStats +
  strategyMap :: "(jskey \<times> StrategyStats) list"
  tagMap :: "(jskey \<times> nat) list"

definition analyzeRows :: "CsvRow list \<Rightarrow> AnalyzeResult" where
  "analyzeRows rows =
     (let st = foldl rowStep initState rows
      in \<lparr>totalRows = length rows,
          machineRejectCount = st_machineRejectCount st,
          recallCount = st_recallCount st,
          humanViolationCount = st_humanViolationCount st,
          blackSampleTotal = st_machineRejectCount st + st_humanViolationCount st,
          strategyMap = st_strategyMap st,
          tagMap = st_tagMap st\<rparr>)"

section \<open>The report\<close>

subsection \<open>The dates of a file\<close>

text \<open>
  \<open>processFile\<close> collects the dates of all rows in a set and sorts them; the default
  sort of strings is by code units, the lexicographic order of the lists.
\<close>

definition collectDate :: "jsstr list \<Rightarrow> CsvRow \<Rightarrow> jsstr list" where
  "collectDate ds row =
     (case extractDate (row COL_ASYNC_TIME) of None \<Rightarrow> ds | Some d \<Rightarrow> Set_add ds d)"

definition availableDatesOf :: "CsvRow list \<Rightarrow> jsstr list" where
  "availableDatesOf data = sort (foldl collectDate [] data)"

subsection \<open>Noise filter\<close>

definition dayRows :: "CsvRow list \<Rightarrow> jsstr \<Rightarrow> CsvRow list" where
  "dayRows rawData d = filter (\<lambda>r. extractDate (r COL_ASYNC_TIME) = Some d) rawData"

text \<open>\<open>Math.max(...xs)\<close> of a non-empty array of counts (it is not called on an empty one).\<close>

definition Math_max :: "nat list \<Rightarrow> nat" where
  "Math_max xs = fold max xs 0"

text \<open>
  The threshold \<open>Math.max(5, maxVolume * 0.005)\<close> is taken in exact arithmetic.  In
  the source the product is a double, and it is only compared with whole numbers: with
  5 and with a count.  For a count below \<open>2^32\<close>, the bound of an array length, the
  double product of a multiple \<open>200 * k\<close> is \<open>k\<close> itself, and that of any other count
  is nearer to the exact product than the exact product is to a whole number; so each
  comparison of the source decides as the exact one does.
\<close>

definition noiseFilter :: "CsvRow list \<Rightarrow> jsstr list \<Rightarrow> jsstr list" where
  "noiseFilter rawData dates0 =
     (if length dates0 > 1 then
        (let dailyCounts = map (\<lambda>d. length (dayRows rawData d)) dates0;
             maxVolume = Math_max dailyCounts
         in if maxVolume > 100 then
              (let threshold = max 5 (rat_of_nat maxVolume * (5 / 1000))
               in map (\<lambda>i. dates0 ! i)
                    (filter (\<lambda>i. rat_of_nat (dailyCounts ! i) > threshold)
                       [0..<length dates0]))
            else dates0)
      else dates0)"

subsection \<open>Weekly accumulation\<close>

record WeeklyAcc =
  acc_dailyStatsMap :: "(jsstr \<times> AnalyzeResult) list"
  acc_aggTotalRows :: nat
  acc_aggMachineReject :: nat
  acc_aggRecall :: nat
  acc_aggHumanViolation :: nat
  acc_aggBlackSample :: nat
  acc_sumRecallRate :: jsnum
  acc_sumPrecision :: jsnum
  acc_sumRiskLevel :: jsnum
  acc_aggStrategyMap :: "(jskey \<times> StrategyStats) list"
  acc_aggTagMap :: "(jskey \<times> nat) list"

definition initAcc :: WeeklyAcc where
  "initAcc =
     \<lparr>acc_dailyStatsMap = [], acc_aggTotalRows = 0, acc_aggMachineReject = 0,
      acc_aggRecall = 0, acc_aggHumanViolation = 0, acc_aggBlackSample = 0,
      acc_sumRecallRate = Finite 0, acc_sumPrecision = Finite 0, acc_sumRiskLevel = Finite 0,
      acc_aggStrategyMap = [], acc_aggTagMap = []\<rparr>"

text \<open>The bodies of \<open>stats.strategyMap.forEach\<close> and \<open>stats.tagMap.forEach\<close>.\<close>

definition addStats :: "StrategyStats \<Rightarrow> StrategyStats \<Rightarrow> StrategyStats" where
  "addStats exist val =
     exist\<lparr>hitCount := hitCount exist + hitCount val,
           humanReviewCount := humanReviewCount exist + humanReviewCount val,
           pendingCount := pendingCount exist + pendingCount val,
           violationCount := violationCount exist + violationCount val\<rparr>"

definition mergeStrategy ::
  "(jskey \<times> StrategyStats) list \<Rightarrow> jskey \<times> StrategyStats \<Rightarrow> (jskey \<times> StrategyStats) list" where
  "mergeStrategy agg kv =
     (case map_of agg (fst kv) of
        None \<Rightarrow> AList.update (fst kv) (snd kv) agg
      | Some exist \<Rightarrow> AList.update (fst kv) (addStats exist (snd kv)) agg)"

definition mergeTag :: "(jskey \<times> nat) list \<Rightarrow> jskey \<times> nat \<Rightarrow> (jskey \<times> nat) list" where
  "mergeTag agg tc = AList.update (fst tc) (getOrZero agg (fst tc) + snd tc) agg"

text \<open>The three rates of one day, in percent: a quotient of two counts, then the
  product with 100, each a double.\<close>

definition dayRecallRate :: "AnalyzeResult \<Rightarrow> jsnum" where
  "dayRecallRate stats =
     (if totalRows stats > 0
      then fmul (fdiv (numOfNat (recallCount stats)) (numOfNat (totalRows stats))) (Finite 100)
      else Finite 0)"

definition dayPrecision :: "AnalyzeResult \<Rightarrow> jsnum" where
  "dayPrecision stats =
     (if recallCount stats > 0
      then fmul (fdiv (numOfNat (humanViolationCount stats)) (numOfNat (recallCount stats)))
             (Finite 100)
      else Finite 0)"

definition dayRisk :: "AnalyzeResult \<Rightarrow> jsnum" where
  "dayRisk stats =
     (if totalRows stats > 0
      then fmul (fdiv (numOfNat (blackSampleTotal stats)) (numOfNat (totalRows stats)))
             (Finite 100)
      else Finite 0)"

text \<open>The body of \<open>dates.forEach\<close>.\<close>

definition dayStep :: "CsvRow list \<Rightarrow> WeeklyAcc \<Rightarrow> jsstr \<Rightarrow> WeeklyAcc" where
  "dayStep rawData acc d =
     (let stats = analyzeRows (dayRows rawData d)
      in \<lparr>acc_dailyStatsMap = AList.update d stats (acc_dailyStatsMap acc),
          acc_aggTotalRows = acc_aggTotalRows acc + totalRows stats,
          acc_aggMachineReject = acc_aggMachineReject acc + machineRejectCount stats,
          acc_aggRecall = acc_aggRecall acc + recallCount stats,
          acc_aggHumanViolation = acc_aggHumanViolation acc + humanViolationCount stats,
          acc_aggBlackSample = acc_aggBlackSample acc + blackSampleTotal stats,
          acc_sumRecallRate = fadd (acc_sumRecallRate acc) (dayRecallRate stats),
          acc_sumPrecision = fadd (acc_sumPrecision acc) (dayPrecision stats),
          acc_sumRiskLevel = fadd (acc_sumRiskLevel acc) (dayRisk stats),
          acc_aggStrategyMap = foldl mergeStrategy (acc_aggStrategyMap acc) (strategyMap stats),
          acc_aggTagMap = foldl mergeTag (acc_aggTagMap acc) (tagMap stats)\<rparr>)"

definition weeklyLoop :: "CsvRow list \<Rightarrow> jsstr list \<Rightarrow> WeeklyAcc" where
  "weeklyLoop rawData ds = foldl (dayStep rawData) initAcc ds"

subsection \<open>Sorted lists\<close>

text \<open>
  \<open>Array.prototype.sort\<close> is stable; with the comparison \<open>b.count - a.count\<close> it
  sorts by the negated count, and \<open>sort_key\<close> is the stable insertion sort.  An entry
  \<open>{name, count}\<close> of the tag list is the pair of the two.
\<close>

definition strategyListOf :: "(jskey \<times> StrategyStats) list \<Rightarrow> StrategyStats list" where
  "strategyListOf sm = sort_key (\<lambda>a. - int (hitCount a)) (map snd sm)"

definition tagListOf :: "(jskey \<times> nat) list \<Rightarrow> (jskey \<times> nat) list" where
  "tagListOf tm = take 35 (sort_key (\<lambda>a. - int (snd a)) tm)"

definition totalTagCountOf :: "(jskey \<times> nat) list \<Rightarrow> nat" where
  "totalTagCountOf entries = foldl (\<lambda>acc curr. acc + snd curr) 0 entries"

subsection \<open>The report structure\<close>

datatype Mode = SINGLE | WEEKLY

record AvgStats =
  avg_totalRows :: jsstr
  avg_machineRejectCount :: jsstr
  avg_recallCount :: jsstr
  avg_humanViolationCount :: jsstr
  avg_blackSampleTotal :: jsstr
  avg_recallRate :: jsstr
  avg_precision :: jsstr
  avg_riskLevel :: jsstr

record ReportData =
  mode :: Mode
  dateLabel :: jsstr
  singleStats :: "AnalyzeResult option"
  dates :: "jsstr list option"
  dailyStatsMap :: "(jsstr \<times> AnalyzeResult) list option"
  totalStats :: "BasicStats option"
  avgStats :: "AvgStats option"
  strategyList :: "StrategyStats list"
  tagList :: "(jskey \<times> nat) list"
  totalTagCount :: nat
  aggTotalRows :: nat
  aggHumanViolationCount :: nat
  aggRecallCount :: nat

definition mkAvgStats :: "(rat \<Rightarrow> jsstr) \<Rightarrow> WeeklyAcc \<Rightarrow> nat \<Rightarrow> js_error + AvgStats" where
  "mkAvgStats nts acc dayCount =
     bindE (formatDecimal nts (fdiv (numOfNat (acc_aggTotalRows acc)) (numOfNat dayCount)) 2) (\<lambda>a1.
     bindE (formatDecimal nts (fdiv (numOfNat (acc_aggMachineReject acc)) (numOfNat dayCount)) 3) (\<lambda>a2.
     bindE (formatDecimal nts (fdiv (numOfNat (acc_aggRecall acc)) (numOfNat dayCount)) 2) (\<lambda>a3.
     bindE (formatDecimal nts (fdiv (numOfNat (acc_aggHumanViolation acc)) (numOfNat dayCount)) 2) (\<lambda>a4.
     bindE (formatDecimal nts (fdiv (numOfNat (acc_aggBlackSample acc)) (numOfNat dayCount)) 0) (\<lambda>a5.
     bindE (formatDecimal nts (fdiv (acc_sumRecallRate acc) (numOfNat dayCount)) 2) (\<lambda>a6.
     bindE (formatDecimal nts (fdiv (acc_sumPrecision acc) (numOfNat dayCount)) 2) (\<lambda>a7.
     bindE (formatDecimal nts (fdiv (acc_sumRiskLevel acc) (numOfNat dayCount)) 2) (\<lambda>a8.
     Inr \<lparr>avg_totalRows = a1, avg_machineRejectCount = a2, avg_recallCount = a3,
          avg_humanViolationCount = a4, avg_blackSampleTotal = a5,
          avg_recallRate = a6 @ js ''%'', avg_precision = a7 @ js ''%'',
          avg_riskLevel = a8 @ js ''%''\<rparr>))))))))"

definition weeklyReport ::
  "(rat \<Rightarrow> jsstr) \<Rightarrow> CsvRow list \<Rightarrow> jsstr list \<Rightarrow> js_error + ReportData option" where
  "weeklyReport nts rawData availableDates =
     (let ds = noiseFilter rawData availableDates;
          acc = weeklyLoop rawData ds;
          dayCount = (if length ds = 0 then 1 else length ds)
      in bindE (mkAvgStats nts acc dayCount) (\<lambda>avg.
           (let entries = tagListOf (acc_aggTagMap acc)
            in Inr (Some
                 \<lparr>mode = WEEKLY, dateLabel = WEEKLY_LABEL, singleStats = None,
                  dates = Some ds,
                  dailyStatsMap = Some (acc_dailyStatsMap acc),
                  totalStats = Some
                    \<lparr>totalRows = acc_aggTotalRows acc,
                     machineRejectCount = acc_aggMachineReject acc,
                     recallCount = acc_aggRecall acc,
                     humanViolationCount = acc_aggHumanViolation acc,
                     blackSampleTotal = acc_aggBlackSample acc\<rparr>,
                  avgStats = Some avg,
                  strategyList = strategyListOf (acc_aggStrategyMap acc),
                  tagList = entries,
                  totalTagCount = totalTagCountOf entries,
                  aggTotalRows = acc_aggTotalRows acc,
                  aggHumanViolationCount = acc_aggHumanViolation acc,
                  aggRecallCount = acc_aggRecall acc\<rparr>))))"

definition singleReport :: "CsvRow list \<Rightarrow> jsstr \<Rightarrow> js_error + ReportData option" where
  "singleReport rawData selectedDate =
     (let stats = analyzeRows (dayRows rawData selectedDate);
          entries = tagListOf (tagMap stats)
      in Inr (Some
           \<lparr>mode = SINGLE, dateLabel = selectedDate, singleStats = Some stats,
            dates = None, dailyStatsMap = None, totalStats = None, avgStats = None,
            strategyList = strategyListOf (strategyMap stats),
            tagList = entries,
            totalTagCount = totalTagCountOf entries,
            aggTotalRows = totalRows stats,
            aggHumanViolationCount = humanViolationCount stats,
            aggRecallCount = recallCount stats\<rparr>))"

text \<open>
  The memoised \<open>report\<close> of the component, a function of the three state variables it
  depends on; \<open>null\<close> is \<open>None\<close>, a thrown exception is \<open>Inl\<close>.
\<close>

definition report ::
  "(rat \<Rightarrow> jsstr) \<Rightarrow> CsvRow list \<Rightarrow> jsstr \<Rightarrow> jsstr list \<Rightarrow> js_error + ReportData option" where
  "report nts rawData selectedDate availableDates =
     (if length rawData = 0 then Inr None
      else if selectedDate = WEEKLY_KEY then weeklyReport nts rawData availableDates
      else singleReport rawData selectedDate)"

text \<open>The number that a string of decimal digits denotes, for the statements about
  \<open>toFixed\<close>.\<close>

definition natOfDigits :: "jsstr \<Rightarrow> nat" where
  "natOfDigits ds = foldl (\<lambda>acc c. 10 * acc + (c - 0x30)) 0 ds"

text \<open>The number of rows of a date, for the statements about the noise filter.\<close>

definition dayVolume :: "CsvRow list \<Rightarrow> jsstr \<Rightarrow> nat" where
  "dayVolume rawData d = length (dayRows rawData d)"

text \<open>
  The canonical tags of a row as the specification words them, with repetitions: the
  tokens of the tag field, trimmed, without the empty ones and those of the stop list,
  each mapped through the merge table.
\<close>

definition canonicalTags :: "CsvRow \<Rightarrow> jskey list" where
  "canonicalTags row =
     map (lookupOr TAG_MERGE_MAPPING)
       (filter (\<lambda>tag. \<not> isInvalidTag tag) (map trim (tagTokens row)))"

text \<open>The value of a count field in the entry of a key, and 0 where the key has no
  entry: what a key-wise sum of strategy maps adds.\<close>

definition statAt ::
  "(StrategyStats \<Rightarrow> nat) \<Rightarrow> (jskey \<times> StrategyStats) list \<Rightarrow> jskey \<Rightarrow> nat" where
  "statAt f sm k = (case map_of sm k of None \<Rightarrow> 0 | Some s \<Rightarrow> f s)"

text \<open>The strategy tokens that the loop over the strategies of a row runs through.\<close>

definition strategyTokens :: "CsvRow \<Rightarrow> jsstr list" where
  "strategyTokens row =
     (case rawStrategyValue row of
        None \<Rightarrow> []
      | Some v \<Rightarrow> (if v = [] then [] else splitAmp [] v))"

text \<open>The rows of the retained dates, date by date.\<close>

definition retainedRows :: "CsvRow list \<Rightarrow> jsstr list \<Rightarrow> CsvRow list" where
  "retainedRows rawData ds = concat (map (dayRows rawData) ds)"

text \<open>The merged tag entries that the tag list of a report is built from: those of the
  weekly accumulation, or those of the selected day.\<close>

definition mergedTagMap :: "CsvRow list \<Rightarrow> jsstr \<Rightarrow> jsstr list \<Rightarrow> (jskey \<times> nat) list" where
  "mergedTagMap rawData selectedDate availableDates =
     (if selectedDate = WEEKLY_KEY
      then acc_aggTagMap (weeklyLoop rawData (noiseFilter rawData availableDates))
      else tagMap (analyzeRows (dayRows rawData selectedDate)))"

text \<open>The counts of the tag list of a report and its total, when there is a report.\<close>

definition reportTagSummary :: "js_error + ReportData option \<Rightarrow> (nat list \<times> nat) option" where
  "reportTagSummary res =
     (case res of
        Inr (Some r) \<Rightarrow> Some (map snd (tagList r), totalTagCount r)
      | _ \<Rightarrow> None)"

section \<open>Sample inputs\<close>

text \<open>
  Three rows of one day: a machine-rejected row judged a violation, a passed row that
  is pending with two strategies, and a passed row that was not sent to human review.
\<close>

definition scenarioDate :: jsstr where
  "scenarioDate = js ''2024-03-01''"

definition scenarioRow1 :: CsvRow where
  "scenarioRow1 =
     map_of [(COL_ASYNC_TIME, js ''2024-03-01 08:00:00''), (COL_SYNC_STATUS, LIT_REJECT),
             (COL_HUMAN_STATUS, LIT_REJECT), (COL_SYNC_STRATEGY, js ''s1''),
             (COL_HUMAN_TAGS, js ''t1'')]"

definition scenarioRow2 :: CsvRow where
  "scenarioRow2 =
     map_of [(COL_ASYNC_TIME, js ''2024/3/1 09:30:00''), (COL_SYNC_STATUS, LIT_PASS),
             (COL_HUMAN_STATUS, LIT_PENDING), (COL_SYNC_STRATEGY, js ''s1&&s2'')]"

definition scenarioRow3 :: CsvRow where
  "scenarioRow3 =
     map_of [(COL_ASYNC_TIME, js ''2024.03.01''), (COL_SYNC_STATUS, LIT_PASS),
             (COL_HUMAN_STATUS, [])]"

definition scenarioRows :: "CsvRow list" where
  "scenarioRows = [scenarioRow1, scenarioRow2, scenarioRow3]"

definition scenarioS1 :: StrategyStats where
  "scenarioS1 =
     \<lparr>name = Str (js ''s1''), hitCount = 2, humanReviewCount = 2, pendingCount = 1,
      violationCount = 1\<rparr>"

definition scenarioS2 :: StrategyStats where
  "scenarioS2 =
     \<lparr>name = Str (js ''s2''), hitCount = 1, humanReviewCount = 1, pendingCount = 1,
      violationCount = 0\<rparr>"

definition scenarioStats :: AnalyzeResult where
  "scenarioStats =
     \<lparr>totalRows = 3, machineRejectCount = 1, recallCount = 2, humanViolationCount = 1,
      blackSampleTotal = 2,
      strategyMap = [(Str (js ''s1''), scenarioS1), (Str (js ''s2''), scenarioS2)],
      tagMap = [(Str (js ''t1''), 1)]\<rparr>"

text \<open>A row whose time column holds no date, the report of a week without dates, and
  the report of a day without rows.\<close>

definition undatedRow :: CsvRow where
  "undatedRow = map_of [(COL_ASYNC_TIME, js ''n/a''), (COL_SYNC_STATUS, LIT_PASS)]"

definition emptyWeeklyReport :: ReportData where
  "emptyWeeklyReport =
     \<lparr>mode = WEEKLY, dateLabel = WEEKLY_LABEL, singleStats = None, dates = Some [],
      dailyStatsMap = Some [],
      totalStats = Some
        \<lparr>totalRows = 0, machineRejectCount = 0, recallCount = 0, humanViolationCount = 0,
         blackSampleTotal = 0\<rparr>,
      avgStats = Some
        \<lparr>avg_totalRows = js ''0.00'', avg_machineRejectCount = js ''0.000'',
         avg_recallCount = js ''0.00'', avg_humanViolationCount = js ''0.00'',
         avg_blackSampleTotal = js ''0'', avg_recallRate = js ''0.00%'',
         avg_precision = js ''0.00%'', avg_riskLevel = js ''0.00%''\<rparr>,
      strategyList = [], tagList = [], totalTagCount = 0, aggTotalRows = 0,
      aggHumanViolationCount = 0, aggRecallCount = 0\<rparr>"

definition otherDate :: jsstr where
  "otherDate = js ''2024-03-02''"

definition emptySingleReport :: ReportData where
  "emptySingleReport =
     \<lparr>mode = SINGLE, dateLabel = otherDate,
      singleStats = Some
        \<lparr>totalRows = 0, machineRejectCount = 0, recallCount = 0, humanViolationCount = 0,
         blackSampleTotal = 0, strategyMap = [], tagMap = []\<rparr>,
      dates = None, dailyStatsMap = None, totalStats = None, avgStats = None,
      strategyList = [], tagList = [], totalTagCount = 0, aggTotalRows = 0,
      aggHumanViolationCount = 0, aggRecallCount = 0\<rparr>"

text \<open>Three dates with 1, 1 and 150 rows.\<close>

definition volumeRowA :: CsvRow where
  "volumeRowA = map_of [(COL_ASYNC_TIME, js ''2024-03-01 23:59:59'')]"

definition volumeRowB :: CsvRow where
  "volumeRowB = map_of [(COL_ASYNC_TIME, js ''2024-03-02 00:00:01'')]"

definition volumeRowC :: CsvRow where
  "volumeRowC = map_of [(COL_ASYNC_TIME, js ''2024-03-03 12:00:00'')]"

definition volumeRows :: "CsvRow list" where
  "volumeRows = [volumeRowA, volumeRowB] @ replicate 150 volumeRowC"

definition volumeDates :: "jsstr list" where
  "volumeDates = [js ''2024-03-01'', js ''2024-03-02'', js ''2024-03-03'']"

text \<open>A violation row whose tag field repeats a tag.\<close>

definition dupTagRow :: CsvRow where
  "dupTagRow =
     map_of [(COL_ASYNC_TIME, js ''2024-03-01''), (COL_HUMAN_STATUS, LIT_REJECT),
             (COL_HUMAN_TAGS, js ''A&&A&&B'')]"

text \<open>
  Forty tags \<open>T01\<close> to \<open>T40\<close> on one day, the tag of number \<open>k\<close> on \<open>k\<close> violation
  rows of its own: 820 rows.
\<close>

definition tagIndices :: "nat list" where
  "tagIndices = [1, 2, 3, 4, 5, 6, 7, 8, 9, 10, 11, 12, 13, 14, 15, 16, 17, 18, 19, 20, 21, 22, 23, 24, 25, 26, 27, 28, 29, 30, 31, 32, 33, 34, 35, 36, 37, 38, 39, 40]"

definition tagName :: "nat \<Rightarrow> jsstr" where
  "tagName k = [0x54, 0x30 + k div 10, 0x30 + k mod 10]"

definition oneTagRow :: "nat \<Rightarrow> CsvRow" where
  "oneTagRow k =
     map_of [(COL_ASYNC_TIME, js ''2024-03-01''), (COL_HUMAN_STATUS, LIT_REJECT),
             (COL_HUMAN_TAGS, tagName k)]"

definition tagRows :: "CsvRow list" where
  "tagRows = concat (map (\<lambda>k. replicate k (oneTagRow k)) tagIndices)"







text \<open>A rendering to stand for \<open>Number::toString\<close> where an explicit input needs one;
  no value of the sample inputs reaches it.\<close>

definition sampleNumberToString :: "rat \<Rightarrow> jsstr" where
  "sampleNumberToString x = js ''1e+21''"

section \<open>Evaluation of the model on explicit inputs\<close>

lemmas string_defs =
  js_def isWhiteSpace_def trim_def optTrim_def truthy_def isTagSepChar_def
  COL_SYNC_STATUS_def COL_ASYNC_STATUS_def COL_HUMAN_STATUS_def COL_SYNC_STRATEGY_def
  COL_ASYNC_STRATEGY_def COL_HUMAN_TAGS_def COL_ASYNC_TIME_def LIT_REJECT_def
  LIT_PENDING_def LIT_PASS_def LIT_SENT_def WEEKLY_KEY_def WEEKLY_LABEL_def
  TAG_STOP_LIST_def OBJECT_PROTOTYPE_NAMES_def STRATEGY_MAPPING_def
  TAG_MERGE_MAPPING_def lookupOr_def

lemmas date_defs =
  isDigit_def isSep1_def isSep2_def matchMonth2_def matchMonth1_def matchMonthDay_def
  matchAt_def padStart2_def extractDate_def

lemmas aggregate_defs =
  Set_add_def isMachineReject_def humanStatus_def isHumanSent_def isHumanViolation_def
  isHumanPending_def rawStrategyValue_def freshStats_def getOrCreate_def bumpStats_def
  strategyStep_def rowStrategies_def isInvalidTag_def tagTokens_def tokenStep_def
  uniqueTagsInRow_def getOrZero_def tagStep_def rowTags_def initState_def rowStep_def analyzeRows_def
  Let_def

lemmas scenario_defs =
  scenarioDate_def scenarioRow1_def scenarioRow2_def scenarioRow3_def scenarioRows_def
  scenarioS1_def scenarioS2_def scenarioStats_def

lemma scenario_analyzeRows: "analyzeRows scenarioRows = scenarioStats"
  by (simp add: scenario_defs aggregate_defs string_defs)

section \<open>Invariants of the strategy statistics\<close>

lemma foldl_invariant:
  assumes "\<And>s x. P s \<Longrightarrow> P (f s x)" and "P s"
  shows "P (foldl f s xs)"
  using assms(2) by (induction xs arbitrary: s) (simp_all add: assms(1))

lemma pending_sent: "isHumanPending row \<Longrightarrow> isHumanSent row"
  by (simp add: isHumanPending_def isHumanSent_def truthy_def LIT_PENDING_def)

lemma violation_sent: "isHumanViolation row \<Longrightarrow> isHumanSent row"
  by (simp add: isHumanViolation_def isHumanSent_def truthy_def LIT_REJECT_def)

lemma set_update_subset: "set (AList.update k v al) \<subseteq> insert (k, v) (set al)"
  by (induction al) auto

text \<open>An invariant \<open>Q\<close> of single entries that creation and increment keep holds in
  every strategy map the aggregator builds.\<close>

lemma strategyStep_entries:
  assumes fresh: "\<And>k. Q (freshStats k)"
    and bump: "\<And>s. Q s \<Longrightarrow> Q (bumpStats row s)"
    and m: "\<forall>e \<in> set m. Q (snd e)"
  shows "\<forall>e \<in> set (strategyStep row m rawName). Q (snd e)"
proof (cases "trim rawName = []")
  case True
  with m show ?thesis by (simp add: strategyStep_def)
next
  case False
  define k where "k = lookupOr STRATEGY_MAPPING (trim rawName)"
  have eq: "strategyStep row m rawName = AList.update k (bumpStats row (getOrCreate m k)) m"
    using False by (simp add: strategyStep_def Let_def k_def)
  have "Q (getOrCreate m k)"
  proof (cases "map_of m k")
    case None
    then show ?thesis by (simp add: getOrCreate_def fresh)
  next
    case (Some s)
    then have "(k, s) \<in> set m" by (rule map_of_SomeD)
    with m have "Q s" by force
    with Some show ?thesis by (simp add: getOrCreate_def)
  qed
  then have "Q (bumpStats row (getOrCreate m k))" by (rule bump)
  then show ?thesis
    using set_update_subset [of k "bumpStats row (getOrCreate m k)" m] m unfolding eq by auto
qed

lemma rowStrategies_entries:
  assumes fresh: "\<And>k. Q (freshStats k)"
    and bump: "\<And>row s. Q s \<Longrightarrow> Q (bumpStats row s)"
    and m: "\<forall>e \<in> set m. Q (snd e)"
  shows "\<forall>e \<in> set (rowStrategies row m). Q (snd e)"
proof -
  have "\<forall>e \<in> set (foldl (strategyStep row) m xs). Q (snd e)" for xs
    by (rule foldl_invariant [where P = "\<lambda>m. \<forall>e \<in> set m. Q (snd e)"])
       (simp_all add: strategyStep_entries fresh bump m)
  with m show ?thesis
    by (simp add: rowStrategies_def split: option.splits)
qed

lemma analyzeRows_entries:
  assumes fresh: "\<And>k. Q (freshStats k)"
    and bump: "\<And>row s. Q s \<Longrightarrow> Q (bumpStats row s)"
    and e: "e \<in> set (strategyMap (analyzeRows rows))"
  shows "Q (snd e)"
proof -
  have "\<forall>e \<in> set (st_strategyMap (foldl rowStep initState rows)). Q (snd e)"
  proof (rule foldl_invariant [where P = "\<lambda>st. \<forall>e \<in> set (st_strategyMap st). Q (snd e)"])
    fix st :: AnalyzeState and row
    assume a: "\<forall>e \<in> set (st_strategyMap st). Q (snd e)"
    have "\<forall>e \<in> set (rowStrategies row (st_strategyMap st)). Q (snd e)"
      by (rule rowStrategies_entries [where Q = Q]) (simp_all add: fresh bump a)
    then show "\<forall>e \<in> set (st_strategyMap (rowStep st row)). Q (snd e)"
      by (simp add: rowStep_def)
  next
    show "\<forall>e \<in> set (st_strategyMap initState). Q (snd e)"
      by (simp add: initState_def)
  qed
  with e show ?thesis
    by (simp add: analyzeRows_def Let_def)
qed

text \<open>
  C7.  In every strategy entry of the aggregator's output, for every sequence of rows,
  the pending count and the violation count are at most the human-review count.
\<close>

theorem C7_pending_violation_le_review:
  assumes "(k, s) \<in> set (strategyMap (analyzeRows rows))"
  shows "pendingCount s \<le> humanReviewCount s \<and> violationCount s \<le> humanReviewCount s"
proof -
  let ?Q = "\<lambda>s. pendingCount s \<le> humanReviewCount s \<and> violationCount s \<le> humanReviewCount s"
  have fresh: "?Q (freshStats k)" for k
    by (simp add: freshStats_def)
  have bump: "?Q (bumpStats row s)" if "?Q s" for row s
    using that pending_sent [of row] violation_sent [of row]
    by (auto simp: bumpStats_def)
  have "?Q (snd (k, s))"
    by (rule analyzeRows_entries [where Q = ?Q and rows = rows])
       (simp_all only: fresh bump assms)
  then show ?thesis by simp
qed

theorem C7_witness:
  "(Str (js ''s1''), scenarioS1) \<in> set (strategyMap (analyzeRows scenarioRows)) \<and>
   pendingCount scenarioS1 \<le> humanReviewCount scenarioS1 \<and>
   violationCount scenarioS1 \<le> humanReviewCount scenarioS1 \<and>
   pendingCount scenarioS1 = 1 \<and> violationCount scenarioS1 = 1 \<and>
   humanReviewCount scenarioS1 = 2"
proof -
  have mem: "(Str (js ''s1''), scenarioS1) \<in> set (strategyMap (analyzeRows scenarioRows))"
    by (simp add: scenario_analyzeRows scenarioStats_def)
  from C7_pending_violation_le_review [OF mem] mem show ?thesis
    by (simp add: scenarioS1_def)
qed

text \<open>
  C9.  In every strategy entry of the aggregator's output the human-review count is at
  most the hit count: an entry is created with both counts zero, and every update of an
  entry adds exactly one to its hit count and at most one to its human-review count.
\<close>

theorem C9_review_le_hit:
  "((k, s) \<in> set (strategyMap (analyzeRows rows)) \<longrightarrow> humanReviewCount s \<le> hitCount s) \<and>
   hitCount (freshStats k') = 0 \<and> humanReviewCount (freshStats k') = 0 \<and>
   hitCount (bumpStats row s') = hitCount s' + 1 \<and>
   humanReviewCount s' \<le> humanReviewCount (bumpStats row s') \<and>
   humanReviewCount (bumpStats row s') \<le> humanReviewCount s' + 1 \<and>
   (trim rawName \<noteq> [] \<longrightarrow>
      map_of (strategyStep row m rawName) (lookupOr STRATEGY_MAPPING (trim rawName)) =
        Some (bumpStats row (getOrCreate m (lookupOr STRATEGY_MAPPING (trim rawName)))) \<and>
      (\<forall>k''. k'' \<noteq> lookupOr STRATEGY_MAPPING (trim rawName) \<longrightarrow>
         map_of (strategyStep row m rawName) k'' = map_of m k''))"
proof -
  let ?Q = "\<lambda>s. humanReviewCount s \<le> hitCount s"
  have inv: "humanReviewCount s \<le> hitCount s"
    if mem: "(k, s) \<in> set (strategyMap (analyzeRows rows))"
  proof -
    have fresh: "?Q (freshStats k)" for k
      by (simp add: freshStats_def)
    have bump: "?Q (bumpStats row s)" if "?Q s" for row s
      using that by (simp add: bumpStats_def)
    have "?Q (snd (k, s))"
      by (rule analyzeRows_entries [where Q = ?Q and rows = rows])
         (simp_all only: fresh bump mem)
    then show ?thesis by simp
  qed
  have step: "map_of (strategyStep row m rawName) (lookupOr STRATEGY_MAPPING (trim rawName)) =
        Some (bumpStats row (getOrCreate m (lookupOr STRATEGY_MAPPING (trim rawName)))) \<and>
      (\<forall>k''. k'' \<noteq> lookupOr STRATEGY_MAPPING (trim rawName) \<longrightarrow>
         map_of (strategyStep row m rawName) k'' = map_of m k'')"
    if "trim rawName \<noteq> []"
    using that by (simp add: strategyStep_def Let_def update_conv')
  show ?thesis
    using inv step by (simp add: freshStats_def bumpStats_def)
qed

theorem C9_witness:
  "(Str (js ''s1''), scenarioS1) \<in> set (strategyMap (analyzeRows scenarioRows)) \<and>
   humanReviewCount scenarioS1 \<le> hitCount scenarioS1 \<and>
   trim (js '' s2 '') \<noteq> [] \<and>
   map_of (strategyStep scenarioRow2 [] (js '' s2 '')) (Str (js ''s2'')) = Some scenarioS2"
proof -
  have mem: "(Str (js ''s1''), scenarioS1) \<in> set (strategyMap (analyzeRows scenarioRows))"
    by (simp add: scenario_analyzeRows scenarioStats_def)
  have ne: "trim (js '' s2 '') \<noteq> []"
    by (simp add: string_defs)
  have key: "lookupOr STRATEGY_MAPPING (trim (js '' s2 '')) = Str (js ''s2'')"
    by (simp add: string_defs)
  have val: "bumpStats scenarioRow2 (getOrCreate [] (Str (js ''s2''))) = scenarioS2"
    by (simp add: scenario_defs aggregate_defs string_defs)
  from C9_review_le_hit
         [of "Str (js ''s1'')" scenarioS1 scenarioRows "Str (js ''s2'')" scenarioRow2
             scenarioS2 "js '' s2 ''" "[]"]
       mem ne key val
  show ?thesis by simp
qed

section \<open>The weekly accumulation\<close>

lemma toFixed_in_range:
  "0 \<le> d \<Longrightarrow> d \<le> 100 \<Longrightarrow> \<exists>s. toFixed nts v d = Inr s"
  by (cases v) (simp_all add: toFixed_def Let_def)

lemma fdiv_zero:
  "numOfNat 0 = Finite 0"
  "0 < n \<Longrightarrow> fdiv (Finite 0) (numOfNat n) = Finite 0"
  by (simp_all add: numOfNat_def fdiv_def fl_def)

lemma mkAvgStats_returns: "\<exists>a. mkAvgStats nts acc n = Inr a"
proof -
  have f: "\<exists>s. formatDecimal nts v d = Inr s" if "0 \<le> d" "d \<le> 100" for v d
    using that by (simp add: formatDecimal_def toFixed_in_range)
  obtain a1 where a1: "formatDecimal nts (fdiv (numOfNat (acc_aggTotalRows acc)) (numOfNat n)) 2 = Inr a1"
    using f [of 2] by auto
  obtain a2 where a2: "formatDecimal nts (fdiv (numOfNat (acc_aggMachineReject acc)) (numOfNat n)) 3 = Inr a2"
    using f [of 3] by auto
  obtain a3 where a3: "formatDecimal nts (fdiv (numOfNat (acc_aggRecall acc)) (numOfNat n)) 2 = Inr a3"
    using f [of 2] by auto
  obtain a4 where a4: "formatDecimal nts (fdiv (numOfNat (acc_aggHumanViolation acc)) (numOfNat n)) 2 = Inr a4"
    using f [of 2] by auto
  obtain a5 where a5: "formatDecimal nts (fdiv (numOfNat (acc_aggBlackSample acc)) (numOfNat n)) 0 = Inr a5"
    using f [of 0] by auto
  obtain a6 where a6: "formatDecimal nts (fdiv (acc_sumRecallRate acc) (numOfNat n)) 2 = Inr a6"
    using f [of 2] by auto
  obtain a7 where a7: "formatDecimal nts (fdiv (acc_sumPrecision acc) (numOfNat n)) 2 = Inr a7"
    using f [of 2] by auto
  obtain a8 where a8: "formatDecimal nts (fdiv (acc_sumRiskLevel acc) (numOfNat n)) 2 = Inr a8"
    using f [of 2] by auto
  show ?thesis
    by (simp add: mkAvgStats_def bindE_def a1 a2 a3 a4 a5 a6 a7 a8)
qed

lemma weeklyReport_returns:
  "\<exists>avg. mkAvgStats nts (weeklyLoop rawData (noiseFilter rawData availableDates))
            (if length (noiseFilter rawData availableDates) = 0 then 1
             else length (noiseFilter rawData availableDates)) = Inr avg \<and>
     weeklyReport nts rawData availableDates =
       Inr (Some
         \<lparr>mode = WEEKLY, dateLabel = WEEKLY_LABEL, singleStats = None,
          dates = Some (noiseFilter rawData availableDates),
          dailyStatsMap =
            Some (acc_dailyStatsMap (weeklyLoop rawData (noiseFilter rawData availableDates))),
          totalStats = Some
            \<lparr>totalRows = acc_aggTotalRows (weeklyLoop rawData (noiseFilter rawData availableDates)),
             machineRejectCount =
               acc_aggMachineReject (weeklyLoop rawData (noiseFilter rawData availableDates)),
             recallCount = acc_aggRecall (weeklyLoop rawData (noiseFilter rawData availableDates)),
             humanViolationCount =
               acc_aggHumanViolation (weeklyLoop rawData (noiseFilter rawData availableDates)),
             blackSampleTotal =
               acc_aggBlackSample (weeklyLoop rawData (noiseFilter rawData availableDates))\<rparr>,
          avgStats = Some avg,
          strategyList =
            strategyListOf (acc_aggStrategyMap (weeklyLoop rawData (noiseFilter rawData availableDates))),
          tagList = tagListOf (acc_aggTagMap (weeklyLoop rawData (noiseFilter rawData availableDates))),
          totalTagCount =
            totalTagCountOf
              (tagListOf (acc_aggTagMap (weeklyLoop rawData (noiseFilter rawData availableDates)))),
          aggTotalRows = acc_aggTotalRows (weeklyLoop rawData (noiseFilter rawData availableDates)),
          aggHumanViolationCount =
            acc_aggHumanViolation (weeklyLoop rawData (noiseFilter rawData availableDates)),
          aggRecallCount = acc_aggRecall (weeklyLoop rawData (noiseFilter rawData availableDates))\<rparr>)"
proof -
  obtain avg where
    "mkAvgStats nts (weeklyLoop rawData (noiseFilter rawData availableDates))
       (if length (noiseFilter rawData availableDates) = 0 then 1
        else length (noiseFilter rawData availableDates)) = Inr avg"
    using mkAvgStats_returns by blast
  then show ?thesis
    by (simp add: weeklyReport_def Let_def bindE_def)
qed

lemma weeklyLoop_counts:
  "acc_aggTotalRows (foldl (dayStep rawData) acc ds) =
     acc_aggTotalRows acc + (\<Sum>d\<leftarrow>ds. totalRows (analyzeRows (dayRows rawData d)))"
  "acc_aggMachineReject (foldl (dayStep rawData) acc ds) =
     acc_aggMachineReject acc + (\<Sum>d\<leftarrow>ds. machineRejectCount (analyzeRows (dayRows rawData d)))"
  "acc_aggRecall (foldl (dayStep rawData) acc ds) =
     acc_aggRecall acc + (\<Sum>d\<leftarrow>ds. recallCount (analyzeRows (dayRows rawData d)))"
  "acc_aggHumanViolation (foldl (dayStep rawData) acc ds) =
     acc_aggHumanViolation acc +
       (\<Sum>d\<leftarrow>ds. humanViolationCount (analyzeRows (dayRows rawData d)))"
  "acc_aggBlackSample (foldl (dayStep rawData) acc ds) =
     acc_aggBlackSample acc + (\<Sum>d\<leftarrow>ds. blackSampleTotal (analyzeRows (dayRows rawData d)))"
  by (induction ds arbitrary: acc) (simp_all add: dayStep_def Let_def)


lemma weeklyLoop_dailyStatsMap:
  "map_of (acc_dailyStatsMap (foldl (dayStep rawData) acc ds)) d =
     (if d \<in> set ds then Some (analyzeRows (dayRows rawData d))
      else map_of (acc_dailyStatsMap acc) d)"
  by (induction ds arbitrary: acc) (auto simp: dayStep_def Let_def update_conv')

lemma scenario_dates:
  "extractDate (scenarioRow1 COL_ASYNC_TIME) = Some scenarioDate"
  "extractDate (scenarioRow2 COL_ASYNC_TIME) = Some scenarioDate"
  "extractDate (scenarioRow3 COL_ASYNC_TIME) = Some scenarioDate"
  by (simp_all add: scenario_defs date_defs string_defs)

lemma scenario_dayRows: "dayRows scenarioRows scenarioDate = scenarioRows"
  by (simp add: dayRows_def scenarioRows_def scenario_dates)

lemma scenario_noiseFilter: "noiseFilter scenarioRows [scenarioDate] = [scenarioDate]"
  by (simp add: noiseFilter_def)

text \<open>
  C1.  For every sequence of rows the aggregator returns a black-sample total that is
  the machine-reject count plus the human-violation count; and a weekly report, which
  every non-empty input has, carries as the black-sample total of its total column the
  sum, over the retained dates, of the black-sample totals of the days, each of which
  is the entry of that date in the map of daily statistics.
\<close>

theorem C1_blackSampleTotal:
  "blackSampleTotal (analyzeRows rows) =
     machineRejectCount (analyzeRows rows) + humanViolationCount (analyzeRows rows) \<and>
   (rawData \<noteq> [] \<longrightarrow>
      (\<exists>r ds dm ts.
         report nts rawData WEEKLY_KEY availableDates = Inr (Some r) \<and>
         dates r = Some ds \<and> ds = noiseFilter rawData availableDates \<and>
         dailyStatsMap r = Some dm \<and> totalStats r = Some ts \<and>
         (\<forall>d \<in> set ds. map_of dm d = Some (analyzeRows (dayRows rawData d))) \<and>
         blackSampleTotal ts =
           (\<Sum>d\<leftarrow>ds. blackSampleTotal (analyzeRows (dayRows rawData d)))))"
proof -
  have part: "blackSampleTotal (analyzeRows rows) =
     machineRejectCount (analyzeRows rows) + humanViolationCount (analyzeRows rows)"
    by (simp add: analyzeRows_def Let_def)
  have weekly: "\<exists>r ds dm ts.
         report nts rawData WEEKLY_KEY availableDates = Inr (Some r) \<and>
         dates r = Some ds \<and> ds = noiseFilter rawData availableDates \<and>
         dailyStatsMap r = Some dm \<and> totalStats r = Some ts \<and>
         (\<forall>d \<in> set ds. map_of dm d = Some (analyzeRows (dayRows rawData d))) \<and>
         blackSampleTotal ts =
           (\<Sum>d\<leftarrow>ds. blackSampleTotal (analyzeRows (dayRows rawData d)))"
    if ne: "rawData \<noteq> []"
  proof -
    obtain r where
      r: "weeklyReport nts rawData availableDates = Inr (Some r)" and
      fields: "dates r = Some (noiseFilter rawData availableDates)"
        "dailyStatsMap r =
           Some (acc_dailyStatsMap (weeklyLoop rawData (noiseFilter rawData availableDates)))"
        "totalStats r = Some
           \<lparr>totalRows = acc_aggTotalRows (weeklyLoop rawData (noiseFilter rawData availableDates)),
            machineRejectCount =
              acc_aggMachineReject (weeklyLoop rawData (noiseFilter rawData availableDates)),
            recallCount = acc_aggRecall (weeklyLoop rawData (noiseFilter rawData availableDates)),
            humanViolationCount =
              acc_aggHumanViolation (weeklyLoop rawData (noiseFilter rawData availableDates)),
            blackSampleTotal =
              acc_aggBlackSample (weeklyLoop rawData (noiseFilter rawData availableDates))\<rparr>"
      using weeklyReport_returns [of nts rawData availableDates] by fastforce
    have rep: "report nts rawData WEEKLY_KEY availableDates = Inr (Some r)"
      using ne r by (simp add: report_def)
    have dm: "\<forall>d \<in> set (noiseFilter rawData availableDates).
        map_of (acc_dailyStatsMap (weeklyLoop rawData (noiseFilter rawData availableDates))) d =
          Some (analyzeRows (dayRows rawData d))"
      by (simp add: weeklyLoop_def weeklyLoop_dailyStatsMap)
    have total: "acc_aggBlackSample (weeklyLoop rawData (noiseFilter rawData availableDates)) =
        (\<Sum>d\<leftarrow>noiseFilter rawData availableDates.
           blackSampleTotal (analyzeRows (dayRows rawData d)))"
      by (simp add: weeklyLoop_def weeklyLoop_counts initAcc_def)
    show ?thesis
      using rep fields dm total by simp
  qed
  from part weekly show ?thesis by blast
qed

theorem C1_witness:
  "blackSampleTotal (analyzeRows scenarioRows) = 1 + 1 \<and> scenarioRows \<noteq> [] \<and>
   (\<exists>r ts. report sampleNumberToString scenarioRows WEEKLY_KEY [scenarioDate] = Inr (Some r) \<and>
      dates r = Some [scenarioDate] \<and> totalStats r = Some ts \<and> blackSampleTotal ts = 2)"
proof -
  have ne: "scenarioRows \<noteq> []"
    by (simp add: scenarioRows_def)
  from C1_blackSampleTotal
         [of scenarioRows scenarioRows sampleNumberToString "[scenarioDate]"] ne
  show ?thesis
    by (auto simp: scenario_noiseFilter scenario_dayRows scenario_analyzeRows scenarioStats_def)
qed

section \<open>The rounding of doubles\<close>

text \<open>
  The exponent found by \<open>floorLog2\<close> is the one of the binary representation, so
  that the rounding \<open>fl\<close> moves a value in the normal range by at most half a unit
  of its last place: by at most its \<open>2^(-53)\<close>-th part.
\<close>

lemma pow2_powi: "pow2 e = 2 powi e"
  by (simp add: pow2_def power_int_def power_inverse [symmetric] inverse_eq_divide power_one_over)

lemma pow2_pos: "0 < pow2 e"
  by (simp add: pow2_powi)

lemma pow2_add: "pow2 (a + b) = pow2 a * pow2 b"
  by (simp add: pow2_powi power_int_add)

lemma pow2_diff: "pow2 (a - b) = pow2 a / pow2 b"
  by (simp add: pow2_powi power_int_diff)

lemma pow2_nat: "pow2 (int n) = 2 ^ n"
  by (simp add: pow2_def)

lemma pow2_less_iff: "pow2 a < pow2 b \<longleftrightarrow> a < b"
proof
  assume "a < b"
  then show "pow2 a < pow2 b"
    by (simp add: pow2_powi power_int_strict_increasing)
next
  assume l: "pow2 a < pow2 b"
  show "a < b"
  proof (rule ccontr)
    assume "\<not> a < b"
    then have "pow2 b \<le> pow2 a"
      by (simp add: pow2_powi power_int_increasing)
    with l show False by simp
  qed
qed

lemma pow2_le_iff: "pow2 a \<le> pow2 b \<longleftrightarrow> a \<le> b"
  using pow2_less_iff [of b a] by (auto simp: not_less [symmetric])

lemma floorLog2_bounds:
  assumes "0 < x"
  shows "pow2 (floorLog2 x) \<le> x" and "x < pow2 (floorLog2 x + 1)"
proof -
  obtain p q where pq: "quotient_of x = (p, q)"
    by (cases "quotient_of x")
  have q: "0 < q" using pq by (rule quotient_of_denom_pos)
  have x: "x = of_int p / of_int q" using pq by (rule quotient_of_div)
  have p: "0 < p"
    using assms q x by (simp add: zero_less_divide_iff)
  define bp where "bp = bitlen p"
  define bq where "bq = bitlen q"
  have bp: "2 ^ nat (bp - 1) \<le> p" "p < 2 ^ nat bp" "1 \<le> bp"
    using bitlen_bounds [OF p] p by (simp_all add: bp_def bitlen_alt_def)
  have bq: "2 ^ nat (bq - 1) \<le> q" "q < 2 ^ nat bq" "1 \<le> bq"
    using bitlen_bounds [OF q] q by (simp_all add: bq_def bitlen_alt_def)
  have bound: "pow2 (b - 1) \<le> of_int k \<and> (of_int k :: rat) < pow2 b"
    if "2 ^ nat (b - 1) \<le> k" "k < 2 ^ nat b" "1 \<le> b" for b k :: int
  proof -
    have "(of_int (2 ^ nat (b - 1)) :: rat) \<le> of_int k"
      using that(1) by (simp only: of_int_le_iff)
    moreover have "(of_int k :: rat) < of_int (2 ^ nat b)"
      using that(2) by (simp only: of_int_less_iff)
    ultimately show ?thesis
      using that(3) by (simp add: pow2_def)
  qed
  have P: "pow2 (bp - 1) \<le> of_int p" "(of_int p :: rat) < pow2 bp"
    using bound [OF bp] by simp_all
  have Q: "pow2 (bq - 1) \<le> of_int q" "(of_int q :: rat) < pow2 bq"
    using bound [OF bq] by simp_all
  define c where "c = bp - bq"
  have qpos: "(0::rat) < of_int q" using q by simp
  have upper: "x < pow2 (c + 1)"
  proof -
    have "x < pow2 bp / of_int q"
      unfolding x using P(2) qpos by (simp add: divide_strict_right_mono)
    also have "\<dots> \<le> pow2 bp / pow2 (bq - 1)"
      using Q(1) pow2_pos [of bp] pow2_pos [of "bq - 1"] by (simp add: frac_le)
    also have "\<dots> = pow2 (c + 1)"
      by (simp add: c_def pow2_diff [symmetric] algebra_simps)
    finally show ?thesis .
  qed
  have lower: "pow2 (c - 1) \<le> x"
  proof -
    have "pow2 (c - 1) = pow2 (bp - 1) / pow2 bq"
      by (simp add: c_def pow2_diff [symmetric] algebra_simps)
    also have "\<dots> \<le> of_int p / pow2 bq"
      using P(1) pow2_pos [of bq] by (simp add: divide_right_mono)
    also have "\<dots> \<le> of_int p / of_int q"
      using Q(2) qpos p by (simp add: frac_le)
    finally show ?thesis by (simp add: x)
  qed
  have fl2: "floorLog2 x = (if pow2 c \<le> x then c else c - 1)"
    by (simp add: floorLog2_def pq Let_def c_def bp_def bq_def)
  show "pow2 (floorLog2 x) \<le> x"
    using lower by (simp add: fl2)
  show "x < pow2 (floorLog2 x + 1)"
    using upper by (simp add: fl2 not_le)
qed

lemma roundHalfEven_error: "\<bar>of_int (roundHalfEven y) - y\<bar> \<le> 1 / 2"
proof -
  have "of_int \<lfloor>y\<rfloor> \<le> y" "y < of_int \<lfloor>y\<rfloor> + 1"
    by linarith+
  then show ?thesis
    by (auto simp: roundHalfEven_def Let_def abs_le_iff)
qed

lemma roundHalfEven_int: "roundHalfEven (of_int k) = k"
  by (simp add: roundHalfEven_def)

lemma fl_error:
  assumes lo: "pow2 (- 1022) \<le> \<bar>x\<bar>" and hi: "\<bar>x\<bar> < pow2 1023"
  shows "\<exists>v. fl x = Finite v \<and> \<bar>v - x\<bar> \<le> \<bar>x\<bar> / 2 ^ 53"
proof -
  define a where "a = \<bar>x\<bar>"
  have apos: "0 < a"
    using lo pow2_pos [of "- 1022"] by (simp add: a_def)
  then have x0: "x \<noteq> 0" by (auto simp: a_def)
  define e where "e = floorLog2 a"
  have eb: "pow2 e \<le> a" "a < pow2 (e + 1)"
    using floorLog2_bounds [OF apos] by (simp_all add: e_def)
  have "pow2 (- 1022) < pow2 (e + 1)"
    using lo eb(2) by (simp add: a_def)
  then have e1: "- 1022 \<le> e"
    by (simp add: pow2_less_iff)
  have "pow2 e < pow2 1023"
    using hi eb(1) by (simp add: a_def)
  then have e2: "e < 1023"
    by (simp add: pow2_less_iff)
  define q where "q = pow2 (e - 52)"
  define m where "m = roundHalfEven (a / q)"
  have qpos: "0 < q" by (simp add: q_def pow2_pos)
  have flx: "fl x = Finite (if x < 0 then - (of_int m * q) else of_int m * q)"
    using x0 e1 e2
    by (simp add: fl_def Let_def a_def [symmetric] e_def [symmetric] max_def q_def m_def)
  have "\<bar>of_int m - a / q\<bar> \<le> 1 / 2"
    unfolding m_def by (rule roundHalfEven_error)
  then have "\<bar>of_int m - a / q\<bar> * q \<le> 1 / 2 * q"
    using qpos by (simp add: mult_right_mono)
  moreover have "\<bar>of_int m - a / q\<bar> * q = \<bar>of_int m * q - a\<bar>"
    using qpos by (simp add: abs_mult [symmetric, of _ q, simplified] left_diff_distrib abs_mult_pos)
  ultimately have err: "\<bar>of_int m * q - a\<bar> \<le> q / 2"
    by simp
  have "pow2 52 = 2 ^ 52"
    using pow2_nat [of 52] by simp
  then have "q / 2 = pow2 e / 2 ^ 53"
    by (simp add: q_def pow2_diff)
  also have "\<dots> \<le> a / 2 ^ 53"
    using eb(1) by (simp add: divide_right_mono)
  finally have "\<bar>of_int m * q - a\<bar> \<le> a / 2 ^ 53"
    using err by simp
  moreover have "\<bar>(if x < 0 then - (of_int m * q) else of_int m * q) - x\<bar> = \<bar>of_int m * q - a\<bar>"
  proof (cases "x < 0")
    case True
    then have "- (of_int m * q) - x = - (of_int m * q - a)"
      by (simp add: a_def)
    then have "\<bar>- (of_int m * q) - x\<bar> = \<bar>of_int m * q - a\<bar>"
      by (simp only: abs_minus_cancel)
    then show ?thesis using True by simp
  next
    case False
    then show ?thesis by (simp add: a_def)
  qed
  ultimately show ?thesis
    using flx by (simp add: a_def)
qed


lemma fl_zero: "fl 0 = Finite 0"
  by (simp add: fl_def)

lemma pow2_numeral_bounds:
  "pow2 (- 1022) \<le> pow2 (- 53)" "pow2 53 < pow2 1023" "pow2 (- 53) = 1 / 2 ^ 53"
  "pow2 53 = 2 ^ 53" "pow2 62 = 2 ^ 62" "pow2 62 < pow2 1023"
  by (simp_all add: pow2_le_iff pow2_less_iff) (simp_all add: pow2_def)

text \<open>A quotient of two counts is a double within the rounding error of the exact
  quotient.\<close>

lemma fdiv_nat_error:
  assumes b: "0 < b" "b < 2 ^ 53" and a: "a < 2 ^ 53"
  shows "\<exists>v. fdiv (numOfNat a) (numOfNat b) = Finite v \<and>
           \<bar>v - rat_of_nat a / rat_of_nat b\<bar> \<le> rat_of_nat a / rat_of_nat b / 2 ^ 53"
proof (cases "a = 0")
  case True
  then show ?thesis
    using b by (simp add: fdiv_def numOfNat_def fl_zero)
next
  case False
  define x where "x = rat_of_nat a / rat_of_nat b"
  have bpos: "(0::rat) < of_nat b" using b by simp
  have a1: "(1::rat) \<le> of_nat a" using False by simp
  have a2: "rat_of_nat a < 2 ^ 53"
    using a by (metis of_nat_less_iff of_nat_numeral of_nat_power)
  have b2: "rat_of_nat b < 2 ^ 53"
    using b(2) by (metis of_nat_less_iff of_nat_numeral of_nat_power)
  have b1: "(1::rat) \<le> of_nat b" using b(1) by simp
  have "1 / 2 ^ 53 \<le> 1 / rat_of_nat b"
    using b2 bpos by (simp add: frac_le)
  also have "\<dots> \<le> x"
    unfolding x_def using a1 bpos by (simp add: divide_right_mono)
  finally have lo: "pow2 (- 53) \<le> x"
    by (simp add: pow2_numeral_bounds)
  have "x \<le> rat_of_nat a"
    unfolding x_def using b1 a1 by (simp add: divide_le_eq)
  then have hi: "x < pow2 53"
    using a2 by (simp add: pow2_numeral_bounds)
  have xpos: "0 < x"
    using lo pow2_pos [of "- 53"] by simp
  have "\<exists>v. fl x = Finite v \<and> \<bar>v - x\<bar> \<le> \<bar>x\<bar> / 2 ^ 53"
    using lo hi xpos pow2_numeral_bounds(1,2) by (intro fl_error) simp_all
  then show ?thesis
    using b(1) xpos by (simp add: fdiv_def numOfNat_def x_def)
qed

text \<open>A percentage of two counts is a double within two rounding errors of the exact
  percentage.\<close>

lemma percent_nat_error:
  assumes b: "0 < b" "b < 2 ^ 53" and a: "a < 2 ^ 53"
  shows "\<exists>v. fmul (fdiv (numOfNat a) (numOfNat b)) (Finite 100) = Finite v \<and>
           \<bar>v - rat_of_nat a / rat_of_nat b * 100\<bar> \<le>
             rat_of_nat a / rat_of_nat b * 100 / 2 ^ 51"
proof (cases "a = 0")
  case True
  then show ?thesis
    using b by (simp add: fdiv_def fmul_def numOfNat_def fl_zero)
next
  case False
  define x where "x = rat_of_nat a / rat_of_nat b"
  obtain v1 where v1: "fdiv (numOfNat a) (numOfNat b) = Finite v1"
      "\<bar>v1 - x\<bar> \<le> x / 2 ^ 53"
    using fdiv_nat_error [OF b a] by (auto simp: x_def)
  have bpos: "(0::rat) < of_nat b" using b by simp
  have a1: "(1::rat) \<le> of_nat a" using False by simp
  have a2: "rat_of_nat a < 2 ^ 53"
    using a by (metis of_nat_less_iff of_nat_numeral of_nat_power)
  have b2: "rat_of_nat b < 2 ^ 53"
    using b(2) by (metis of_nat_less_iff of_nat_numeral of_nat_power)
  have b1: "(1::rat) \<le> of_nat b" using b(1) by simp
  have "1 / 2 ^ 53 \<le> 1 / rat_of_nat b"
    using b2 bpos by (simp add: frac_le)
  also have "\<dots> \<le> x"
    unfolding x_def using a1 bpos by (simp add: divide_right_mono)
  finally have xlo: "1 / 2 ^ 53 \<le> x" .
  have "x \<le> rat_of_nat a"
    unfolding x_def using b1 a1 by (simp add: divide_le_eq)
  then have xhi: "x < 2 ^ 53"
    using a2 by simp
  have xpos: "0 < x" using xlo by simp
  have "x / 2 ^ 53 \<le> x / 2"
    using xpos by (simp add: field_simps)
  with v1(2) have "\<bar>v1 - x\<bar> \<le> x / 2"
    by linarith
  then have v1b: "x / 2 \<le> v1" "v1 \<le> 2 * x"
    using xpos by linarith+
  define y where "y = v1 * 100"
  have ylo: "pow2 (- 53) \<le> y"
    using v1b(1) xlo by (simp add: y_def pow2_numeral_bounds)
  have yhi: "y < pow2 62"
    using v1b(2) xhi by (simp add: y_def pow2_numeral_bounds)
  have ypos: "0 < y" using v1b(1) xpos by (simp add: y_def)
  have "\<exists>v. fl y = Finite v \<and> \<bar>v - y\<bar> \<le> \<bar>y\<bar> / 2 ^ 53"
    using ylo yhi ypos pow2_numeral_bounds(1,6) by (intro fl_error) simp_all
  then obtain v where v: "fl y = Finite v" "\<bar>v - y\<bar> \<le> y / 2 ^ 53"
    using ypos by auto
  have fm: "fmul (fdiv (numOfNat a) (numOfNat b)) (Finite 100) = Finite v"
    using v(1) by (simp add: v1(1) fmul_def y_def)
  have "\<bar>v - x * 100\<bar> \<le> \<bar>v - y\<bar> + \<bar>y - x * 100\<bar>"
    by simp
  also have "\<bar>y - x * 100\<bar> = \<bar>v1 - x\<bar> * 100"
  proof -
    have "y - x * 100 = (v1 - x) * 100"
      by (simp add: y_def left_diff_distrib)
    then show ?thesis
      by (simp only: abs_mult)
  qed
  also have "\<bar>v - y\<bar> + \<bar>v1 - x\<bar> * 100 \<le> y / 2 ^ 53 + x / 2 ^ 53 * 100"
    using v(2) v1(2) by (intro add_mono) simp_all
  also have "\<dots> \<le> (2 * x * 100) / 2 ^ 53 + x / 2 ^ 53 * 100"
    using v1b(2) by (simp add: y_def divide_right_mono)
  also have "\<dots> \<le> x * 100 / 2 ^ 51"
    using xpos by simp
  finally have "\<bar>v - x * 100\<bar> \<le> x * 100 / 2 ^ 51" .
  then show ?thesis
    using fm by (auto simp: x_def)
qed

text \<open>A whole number below \<open>2^53\<close> is a double.\<close>

lemma fl_nat_exact:
  assumes "n < 2 ^ 53"
  shows "fl (rat_of_nat n) = Finite (rat_of_nat n)"
proof (cases "n = 0")
  case True
  then show ?thesis by (simp add: fl_zero)
next
  case False
  define a where "a = rat_of_nat n"
  have a1: "1 \<le> a" using False by (simp add: a_def)
  have a2: "a < 2 ^ 53"
    unfolding a_def using assms by (metis of_nat_less_iff of_nat_numeral of_nat_power)
  have apos: "0 < a" using a1 by simp
  define e where "e = floorLog2 a"
  have eb: "pow2 e \<le> a" "a < pow2 (e + 1)"
    using floorLog2_bounds [OF apos] by (simp_all add: e_def)
  have "pow2 0 < pow2 (e + 1)"
    using a1 eb(2) by (simp add: pow2_def)
  then have e0: "0 \<le> e" by (simp add: pow2_less_iff)
  have "pow2 e < pow2 53"
    using a2 eb(1) by (simp add: pow2_numeral_bounds)
  then have e53: "e \<le> 52" by (simp add: pow2_less_iff)
  define k where "k = nat (52 - e)"
  have q: "pow2 (e - 52) = 1 / 2 ^ k"
    using e53 by (cases "e = 52") (simp_all add: pow2_def k_def)
  have "a / pow2 (e - 52) = of_int (int n * 2 ^ k)"
    by (simp add: q a_def)
  then have m: "roundHalfEven (a / pow2 (e - 52)) = int n * 2 ^ k"
    by (simp only: roundHalfEven_int)
  have "of_int (int n * 2 ^ k) * pow2 (e - 52) = a"
    by (simp add: q a_def)
  then show ?thesis
    using False e0 e53 apos
    by (simp add: fl_def Let_def a_def [symmetric] e_def [symmetric] max_def m
          del: of_int_mult of_int_power)
qed

section \<open>Percentages\<close>

lemma floor_rat_numeral_div:
  "\<lfloor>(numeral a :: rat) / numeral b\<rfloor> = numeral a div numeral b"
  using floor_divide_of_int_eq [of "numeral a" "numeral b", where ?'a = rat] by simp

lemmas number_defs =
  formatPercent_def formatDecimal_def toFixed_def fixedDigits_def digitsOf.simps
  floor_rat_numeral_div bindE_def Let_def

lemma fixedDigits_zero:
  "fixedDigits 0 f = (if f = 0 then [0x30] else [0x30, 0x2E] @ replicate f 0x30)"
proof (cases f)
  case 0
  then show ?thesis by (simp add: fixedDigits_def)
next
  case (Suc g)
  have "replicate g (0x30::nat) @ [0x30] = replicate (Suc g) 0x30"
    by (simp add: replicate_append_same)
  then show ?thesis
    using Suc by (simp add: fixedDigits_def Let_def)
qed

text \<open>
  The rendering of \<open>toFixed\<close> is digits only, apart from the point before the last
  \<open>f\<close> of them; read as one number the digits are the integer nearest to the value
  times \<open>10^f\<close>, the larger one of two equally near.
\<close>

lemma natOfDigits_foldl:
  "foldl (\<lambda>acc c. 10 * acc + (c - 0x30)) k ds = k * 10 ^ length ds + natOfDigits ds"
proof (induction ds arbitrary: k)
  case Nil
  then show ?case by (simp add: natOfDigits_def)
next
  case (Cons c cs)
  have "foldl (\<lambda>acc c. 10 * acc + (c - 0x30)) k (c # cs) =
      (10 * k + (c - 0x30)) * 10 ^ length cs + natOfDigits cs"
    using Cons [of "10 * k + (c - 0x30)"] by simp
  moreover have "natOfDigits (c # cs) = (c - 0x30) * 10 ^ length cs + natOfDigits cs"
    using Cons [of "c - 0x30"] by (simp add: natOfDigits_def)
  ultimately show ?case
    by (simp add: algebra_simps)
qed

lemma natOfDigits_append:
  "natOfDigits (a @ b) = natOfDigits a * 10 ^ length b + natOfDigits b"
proof -
  have "natOfDigits (a @ b) = foldl (\<lambda>acc c. 10 * acc + (c - 0x30)) (natOfDigits a) b"
    by (simp add: natOfDigits_def)
  then show ?thesis
    by (simp add: natOfDigits_foldl)
qed

lemma natOfDigits_zeros: "natOfDigits (replicate k 0x30) = 0"
proof (induction k)
  case 0
  then show ?case by (simp add: natOfDigits_def)
next
  case (Suc k)
  have "replicate (Suc k) (0x30::nat) = replicate k 0x30 @ [0x30]"
    by (simp add: replicate_append_same)
  moreover have "natOfDigits [0x30] = 0"
    by (simp add: natOfDigits_def)
  ultimately show ?case
    using Suc by (simp add: natOfDigits_append)
qed

lemma natOfDigits_digitsOf: "natOfDigits (digitsOf n) = n"
proof (induction n rule: digitsOf.induct)
  case (1 n)
  show ?case
  proof (cases "n < 10")
    case True
    then show ?thesis
      by (simp add: digitsOf.simps [of n] natOfDigits_def)
  next
    case False
    then have "natOfDigits (digitsOf (n div 10)) = n div 10"
      using 1 by simp
    moreover have "natOfDigits [0x30 + n mod 10] = n mod 10"
      by (simp add: natOfDigits_def)
    ultimately show ?thesis
      using False by (simp add: digitsOf.simps [of n] natOfDigits_append)
  qed
qed

lemma digitsOf_digits: "list_all isDigit (digitsOf n) \<and> digitsOf n \<noteq> []"
proof (induction n rule: digitsOf.induct)
  case (1 n)
  show ?case
  proof (cases "n < 10")
    case True
    then show ?thesis
      by (simp add: digitsOf.simps [of n] isDigit_def)
  next
    case False
    then have "list_all isDigit (digitsOf (n div 10))"
      using 1 by simp
    moreover have "isDigit (0x30 + n mod 10)"
      by (simp add: isDigit_def)
    ultimately show ?thesis
      using False by (simp add: digitsOf.simps [of n])
  qed
qed

lemma fixedDigits_value:
  "\<exists>a b. fixedDigits x f = a @ (if f = 0 then [] else [0x2E] @ b) \<and> a \<noteq> [] \<and>
     length b = f \<and> list_all isDigit (a @ b) \<and>
     natOfDigits (a @ b) = nat \<lfloor>x * 10 ^ f + 1 / 2\<rfloor>"
proof -
  define N where "N = nat \<lfloor>x * 10 ^ f + 1 / 2\<rfloor>"
  define m where "m = (if N = 0 then [0x30] else digitsOf N)"
  define m' where "m' = (if length m \<le> f then replicate (f + 1 - length m) 0x30 @ m else m)"
  define k' where "k' = (if length m \<le> f then f + 1 else length m)"
  have m: "natOfDigits m = N" "list_all isDigit m" "m \<noteq> []"
    by (simp_all add: m_def natOfDigits_digitsOf digitsOf_digits)
       (simp_all add: natOfDigits_def isDigit_def)
  have zeros: "list_all isDigit (replicate k 0x30)" for k
    by (simp add: list_all_iff isDigit_def)
  have m': "natOfDigits m' = N" "list_all isDigit m'"
    using m zeros by (simp_all add: m'_def natOfDigits_append natOfDigits_zeros)
  have len: "length m' = k'" and big: "f < k'"
    by (auto simp: m'_def k'_def)
  show ?thesis
  proof (cases "f = 0")
    case True
    then have "fixedDigits x f = m"
      by (simp add: fixedDigits_def Let_def m_def N_def)
    then show ?thesis
      using True m by (intro exI [of _ m] exI [of _ "[]"]) (simp add: N_def)
  next
    case False
    have eq: "fixedDigits x f = take (k' - f) m' @ [0x2E] @ drop (k' - f) m'"
      using False by (simp add: fixedDigits_def Let_def m_def m'_def k'_def N_def)
    have "take (k' - f) m' \<noteq> []" using len big by auto
    moreover have "length (drop (k' - f) m') = f" using len big by auto
    ultimately show ?thesis
      using False eq m'
      by (intro exI [of _ "take (k' - f) m'"] exI [of _ "drop (k' - f) m'"])
         (simp add: N_def)
  qed
qed

text \<open>
  C8 (amended).  For a digit count \<open>d\<close> from 0 to 100 and every numerator,
  \<open>formatPercent(n, 0, d)\<close> returns zero rendered with exactly \<open>d\<close> decimal digits:
  \<open>0\<close> for \<open>d = 0\<close>, otherwise \<open>0.\<close> followed by \<open>d\<close> zeros.  For a digit count
  below 0 or above 100 it throws a \<open>RangeError\<close>, whatever the denominator.  With a
  denominator other than zero it returns \<open>(n / denominator * 100).toFixed(d)\<close>, where
  the quotient and the product are those of the doubles.  When that double \<open>v\<close> is
  finite and below \<open>10^21\<close> in size and \<open>d\<close> is from 0 to 100, the result is a minus
  sign if \<open>v\<close> is negative, then an integer part and, for \<open>d > 0\<close>, the point and
  exactly \<open>d\<close> digits; its digits are those of the integer nearest to \<open>|v| * 10^d\<close>,
  the larger one of two equally near.  For whole numbers below \<open>2^53\<close>, as all counts
  are, with a denominator above zero, the double \<open>v\<close> is finite and differs from the
  exact percentage by at most its \<open>2^(-51)\<close>-th part.
\<close>

theorem C8_formatPercent:
  "(0 \<le> d \<and> d \<le> 100 \<longrightarrow>
      formatPercent nts n (Finite 0) d =
        Inr (if d = 0 then js ''0'' else js ''0.'' @ replicate (nat d) 0x30)) \<and>
   (d < 0 \<or> 100 < d \<longrightarrow> formatPercent nts n den d = Inl RangeError) \<and>
   (den \<noteq> Finite 0 \<longrightarrow>
      formatPercent nts n den d = toFixed nts (fmul (fdiv n den) (Finite 100)) d) \<and>
   (den \<noteq> Finite 0 \<and> 0 \<le> d \<and> d \<le> 100 \<and> fmul (fdiv n den) (Finite 100) = Finite v \<and>
    \<bar>v\<bar> < 10 ^ 21 \<longrightarrow>
      (\<exists>a b. formatPercent nts n den d =
                Inr ((if v < 0 then [0x2D] else []) @ a @
                     (if d = 0 then [] else [0x2E] @ b)) \<and>
         a \<noteq> [] \<and> length b = nat d \<and> list_all isDigit (a @ b) \<and>
         natOfDigits (a @ b) = nat \<lfloor>\<bar>v\<bar> * 10 ^ nat d + 1 / 2\<rfloor>)) \<and>
   (0 < k \<and> k < 2 ^ 53 \<and> j < 2 ^ 53 \<longrightarrow>
      (\<exists>w. fmul (fdiv (numOfNat j) (numOfNat k)) (Finite 100) = Finite w \<and>
           \<bar>w - rat_of_nat j / rat_of_nat k * 100\<bar> \<le>
             rat_of_nat j / rat_of_nat k * 100 / 2 ^ 51 \<and>
           formatPercent nts (numOfNat j) (numOfNat k) d = toFixed nts (Finite w) d))"
proof -
  have zero: "formatPercent nts n (Finite 0) d =
        Inr (if d = 0 then js ''0'' else js ''0.'' @ replicate (nat d) 0x30)"
    if "0 \<le> d" "d \<le> 100"
    using that by (simp add: formatPercent_def toFixed_def fixedDigits_zero js_def)
  have range: "formatPercent nts n den d = Inl RangeError" if "d < 0 \<or> 100 < d"
    using that by (auto simp: formatPercent_def toFixed_def)
  have nonzero: "formatPercent nts n den d = toFixed nts (fmul (fdiv n den) (Finite 100)) d"
    if "den \<noteq> Finite 0"
    using that by (simp add: formatPercent_def)
  have digits: "\<exists>a b. formatPercent nts n den d =
                Inr ((if v < 0 then [0x2D] else []) @ a @
                     (if d = 0 then [] else [0x2E] @ b)) \<and>
         a \<noteq> [] \<and> length b = nat d \<and> list_all isDigit (a @ b) \<and>
         natOfDigits (a @ b) = nat \<lfloor>\<bar>v\<bar> * 10 ^ nat d + 1 / 2\<rfloor>"
    if h: "den \<noteq> Finite 0" "0 \<le> d" "d \<le> 100" "fmul (fdiv n den) (Finite 100) = Finite v"
      "\<bar>v\<bar> < 10 ^ 21"
  proof -
    obtain a b where ab:
      "fixedDigits \<bar>v\<bar> (nat d) = a @ (if nat d = 0 then [] else [0x2E] @ b)" "a \<noteq> []"
      "length b = nat d" "list_all isDigit (a @ b)"
      "natOfDigits (a @ b) = nat \<lfloor>\<bar>v\<bar> * 10 ^ nat d + 1 / 2\<rfloor>"
      using fixedDigits_value [of "\<bar>v\<bar>" "nat d"] by blast
    have "formatPercent nts n den d =
        Inr ((if v < 0 then [0x2D] else []) @ a @ (if d = 0 then [] else [0x2E] @ b))"
      using h ab(1) by (simp add: formatPercent_def toFixed_def Let_def)
    then show ?thesis
      using ab(2-5) by blast
  qed
  have counts: "\<exists>w. fmul (fdiv (numOfNat j) (numOfNat k)) (Finite 100) = Finite w \<and>
           \<bar>w - rat_of_nat j / rat_of_nat k * 100\<bar> \<le>
             rat_of_nat j / rat_of_nat k * 100 / 2 ^ 51 \<and>
           formatPercent nts (numOfNat j) (numOfNat k) d = toFixed nts (Finite w) d"
    if h: "0 < k \<and> k < 2 ^ 53 \<and> j < 2 ^ 53"
  proof -
    obtain w where w: "fmul (fdiv (numOfNat j) (numOfNat k)) (Finite 100) = Finite w"
      "\<bar>w - rat_of_nat j / rat_of_nat k * 100\<bar> \<le> rat_of_nat j / rat_of_nat k * 100 / 2 ^ 51"
      using percent_nat_error [of k j] h by blast
    have "numOfNat k \<noteq> Finite 0"
      using h by (simp add: numOfNat_def)
    then have "formatPercent nts (numOfNat j) (numOfNat k) d = toFixed nts (Finite w) d"
      by (simp add: formatPercent_def w(1))
    with w show ?thesis by blast
  qed
  from zero range nonzero digits counts show ?thesis by blast
qed

lemma sample_percentages:
  "fmul (fdiv (Finite 23) (Finite 160)) (Finite 100) =
     Finite (8092405580431359 / 562949953421312)"
  "fmul (fdiv (Finite 1) (Finite 3)) (Finite 100) = Finite (2345624805922133 / 70368744177664)"
  "formatPercent sampleNumberToString (Finite 23) (Finite 160) 2 = Inr (js ''14.37'')"
  "formatPercent sampleNumberToString (Finite 1) (Finite 3) 20 =
     Inr (js ''33.33333333333332859638'')"
  "formatPercent sampleNumberToString (Finite 1) (Finite 4) 2 = Inr (js ''25.00'')"
  "formatPercent sampleNumberToString (Finite (- 1)) (Finite 3) 0 = Inr (js ''-33'')"
  by code_simp+

theorem C8_witness:
  "formatPercent sampleNumberToString (Finite 7) (Finite 0) 2 = Inr (js ''0.00'') \<and>
   formatPercent sampleNumberToString NaN (Finite 0) 0 = Inr (js ''0'') \<and>
   formatPercent sampleNumberToString (Finite 7) (Finite 0) (- 1) = Inl RangeError \<and>
   formatPercent sampleNumberToString (Finite 23) (Finite 160) 2 =
     toFixed sampleNumberToString (fmul (fdiv (Finite 23) (Finite 160)) (Finite 100)) 2 \<and>
   fmul (fdiv (Finite 23) (Finite 160)) (Finite 100) =
     Finite (8092405580431359 / 562949953421312) \<and>
   (\<exists>a b. formatPercent sampleNumberToString (Finite 23) (Finite 160) 2 =
             Inr (a @ [0x2E] @ b) \<and>
          length b = 2 \<and> natOfDigits (a @ b) = 1437) \<and>
   formatPercent sampleNumberToString (Finite 23) (Finite 160) 2 = Inr (js ''14.37'') \<and>
   formatPercent sampleNumberToString (Finite 1) (Finite 3) 20 =
     Inr (js ''33.33333333333332859638'') \<and>
   formatPercent sampleNumberToString (Finite 1) (Finite 4) 2 = Inr (js ''25.00'') \<and>
   (\<exists>w. fmul (fdiv (numOfNat 23) (numOfNat 160)) (Finite 100) = Finite w \<and>
        \<bar>w - 115 / 8\<bar> \<le> 115 / 8 / 2 ^ 51)"
proof -
  have a: "formatPercent sampleNumberToString (Finite 7) (Finite 0) 2 = Inr (js ''0.00'')"
    using C8_formatPercent [where d = 2 and nts = sampleNumberToString and n = "Finite 7"]
    by (simp add: js_def numeral_2_eq_2)
  have b: "formatPercent sampleNumberToString NaN (Finite 0) 0 = Inr (js ''0'')"
    using C8_formatPercent [where d = 0 and nts = sampleNumberToString and n = NaN]
    by simp
  have c: "formatPercent sampleNumberToString (Finite 7) (Finite 0) (- 1) = Inl RangeError"
    using C8_formatPercent
      [where d = "- 1" and nts = sampleNumberToString and n = "Finite 7" and den = "Finite 0"]
    by simp
  have d: "formatPercent sampleNumberToString (Finite 23) (Finite 160) 2 =
      toFixed sampleNumberToString (fmul (fdiv (Finite 23) (Finite 160)) (Finite 100)) 2"
    using C8_formatPercent
      [where d = 2 and nts = sampleNumberToString and n = "Finite 23" and den = "Finite 160"]
    by simp
  have fl: "\<lfloor>\<bar>8092405580431359 / 562949953421312 :: rat\<bar> * 10 ^ nat 2 + 1 / 2\<rfloor> = 1437"
    by code_simp
  note digits = C8_formatPercent
      [where d = 2 and nts = sampleNumberToString and n = "Finite 23" and den = "Finite 160"
         and v = "8092405580431359 / 562949953421312",
       THEN conjunct2, THEN conjunct2, THEN conjunct2, THEN conjunct1]
  have e: "\<exists>a b. formatPercent sampleNumberToString (Finite 23) (Finite 160) 2 =
             Inr (a @ [0x2E] @ b) \<and>
          length b = 2 \<and> natOfDigits (a @ b) = 1437"
    using digits sample_percentages(1) fl
    by auto
  note counts = C8_formatPercent
      [where k = 160 and j = 23, THEN conjunct2, THEN conjunct2, THEN conjunct2, THEN conjunct2]
  have f: "\<exists>w. fmul (fdiv (numOfNat 23) (numOfNat 160)) (Finite 100) = Finite w \<and>
        \<bar>w - 115 / 8\<bar> \<le> 115 / 8 / 2 ^ 51"
    using counts by auto
  from a b c d e f sample_percentages show ?thesis by simp
qed

text \<open>The claim as stated, for every digit count, fails at 101 digits.\<close>

theorem C8_counterexample:
  "formatPercent sampleNumberToString (Finite 1) (Finite 0) 101 = Inl RangeError"
  by (simp add: formatPercent_def toFixed_def)

section \<open>The noise filter\<close>

lemma filter_by_index:
  "map (\<lambda>i. xs ! i) (filter (\<lambda>i. Q ((map f xs) ! i)) [0..<length xs]) =
   filter (\<lambda>x. Q (f x)) xs"
proof -
  have "filter (\<lambda>i. Q ((map f xs) ! i)) [0..<length xs] =
        filter ((\<lambda>x. Q (f x)) \<circ> (\<lambda>i. xs ! i)) [0..<length xs]"
    by (rule filter_cong) simp_all
  then have "map (\<lambda>i. xs ! i) (filter (\<lambda>i. Q ((map f xs) ! i)) [0..<length xs]) =
        filter (\<lambda>x. Q (f x)) (map (\<lambda>i. xs ! i) [0..<length xs])"
    by (simp add: filter_map)
  then show ?thesis
    by (simp add: map_nth)
qed

lemma Math_max_eq: "xs \<noteq> [] \<Longrightarrow> Math_max xs = Max (set xs)"
proof -
  assume ne: "xs \<noteq> []"
  have "Math_max xs = Max (set (0 # xs))"
    unfolding Math_max_def by (rule Max.set_eq_fold [symmetric])
  also have "\<dots> = max 0 (Max (set xs))"
    using ne by simp
  finally show ?thesis by simp
qed

lemma noiseFilter_filtering:
  assumes "1 < length ds" and "100 < Max (dayVolume rawData ` set ds)"
  shows "noiseFilter rawData ds =
    filter (\<lambda>d. max 5 (rat_of_nat (Max (dayVolume rawData ` set ds)) * (5 / 1000))
                  < rat_of_nat (dayVolume rawData d)) ds"
proof -
  have ne: "map (\<lambda>d. length (dayRows rawData d)) ds \<noteq> []"
    using assms(1) by auto
  have mx: "Math_max (map (\<lambda>d. length (dayRows rawData d)) ds) = Max (dayVolume rawData ` set ds)"
    using Math_max_eq [OF ne] by (simp add: dayVolume_def [abs_def])
  show ?thesis
    using assms
      filter_by_index
        [of ds "\<lambda>c. max 5 (rat_of_nat (Max (dayVolume rawData ` set ds)) * (5 / 1000))
                   < rat_of_nat c"
            "\<lambda>d. length (dayRows rawData d)"]
    by (simp add: noiseFilter_def Let_def mx dayVolume_def [abs_def])
qed

lemma noiseFilter_unchanged:
  assumes "length ds \<le> 1 \<or> Max (dayVolume rawData ` set ds) \<le> 100"
  shows "noiseFilter rawData ds = ds"
proof (cases "1 < length ds")
  case False
  then show ?thesis by (simp add: noiseFilter_def)
next
  case True
  then have ne: "map (\<lambda>d. length (dayRows rawData d)) ds \<noteq> []"
    by auto
  have mx: "Math_max (map (\<lambda>d. length (dayRows rawData d)) ds) = Max (dayVolume rawData ` set ds)"
    using Math_max_eq [OF ne] by (simp add: dayVolume_def [abs_def])
  from True assms have "Max (dayVolume rawData ` set ds) \<le> 100" by simp
  then show ?thesis
    by (simp add: noiseFilter_def Let_def mx)
qed

text \<open>The date of the largest volume is never dropped, so the filter leaves a date
  whenever there is one.\<close>

lemma noiseFilter_keeps_max:
  assumes ne: "ds \<noteq> []"
  shows "\<exists>d \<in> set (noiseFilter rawData ds).
           dayVolume rawData d = Max (dayVolume rawData ` set ds)"
proof -
  have "Max (dayVolume rawData ` set ds) \<in> dayVolume rawData ` set ds"
    using ne by (intro Max_in) auto
  then obtain d where d: "d \<in> set ds" "dayVolume rawData d = Max (dayVolume rawData ` set ds)"
    by auto
  show ?thesis
  proof (cases "1 < length ds \<and> 100 < Max (dayVolume rawData ` set ds)")
    case False
    then have "noiseFilter rawData ds = ds"
      by (intro noiseFilter_unchanged) auto
    then show ?thesis using d by auto
  next
    case True
    define v where "v = Max (dayVolume rawData ` set ds)"
    have big: "100 < v" using True by (simp add: v_def)
    then have "rat_of_nat v * (5 / 1000) < rat_of_nat v" and "5 < rat_of_nat v"
      by simp_all
    then have "max 5 (rat_of_nat v * (5 / 1000)) < rat_of_nat (dayVolume rawData d)"
      using d(2) by (simp add: v_def)
    then have "d \<in> set (filter (\<lambda>d. max 5 (rat_of_nat v * (5 / 1000))
                    < rat_of_nat (dayVolume rawData d)) ds)"
      using d(1) by simp
    then have "d \<in> set (noiseFilter rawData ds)"
      using noiseFilter_filtering [of ds rawData] True by (simp add: v_def)
    then show ?thesis using d(2) by auto
  qed
qed

lemma noiseFilter_empty: "noiseFilter rawData ds = [] \<longleftrightarrow> ds = []"
proof (cases "ds = []")
  case True
  then show ?thesis by (simp add: noiseFilter_def)
next
  case False
  then show ?thesis
    using noiseFilter_keeps_max [of ds rawData] by auto
qed

text \<open>
  C3.  In weekly mode, with more than one date and a largest per-date row count
  \<open>maxVolume\<close> above 100, exactly the dates whose row count is at most
  \<open>max(5, maxVolume * 0.005)\<close> are dropped and the others are kept, in their order; with
  one date or none, or with \<open>maxVolume\<close> at most 100, no date is dropped; the dates of
  the weekly report are the dates kept.  For the volumes 1, 1 and 150 the threshold is 5
  and only the date with 150 rows is kept.
\<close>

theorem C3_noise_filter:
  "(1 < length ds \<and> 100 < Max (dayVolume rawData ` set ds) \<longrightarrow>
      noiseFilter rawData ds =
        filter (\<lambda>d. \<not> rat_of_nat (dayVolume rawData d)
                        \<le> max 5 (rat_of_nat (Max (dayVolume rawData ` set ds)) * (5 / 1000)))
          ds) \<and>
   (length ds \<le> 1 \<or> Max (dayVolume rawData ` set ds) \<le> 100 \<longrightarrow>
      noiseFilter rawData ds = ds) \<and>
   (rawData \<noteq> [] \<longrightarrow>
      (\<exists>r. report nts rawData WEEKLY_KEY ds = Inr (Some r) \<and>
           dates r = Some (noiseFilter rawData ds))) \<and>
   (dayVolume rawData d1 = 1 \<and> dayVolume rawData d2 = 1 \<and> dayVolume rawData d3 = 150 \<longrightarrow>
      max 5 (rat_of_nat (Max (dayVolume rawData ` set [d1, d2, d3])) * (5 / 1000)) = 5 \<and>
      noiseFilter rawData [d1, d2, d3] = [d3])"
proof -
  have filtering: "noiseFilter rawData ds =
        filter (\<lambda>d. \<not> rat_of_nat (dayVolume rawData d)
                        \<le> max 5 (rat_of_nat (Max (dayVolume rawData ` set ds)) * (5 / 1000)))
          ds"
    if "1 < length ds \<and> 100 < Max (dayVolume rawData ` set ds)" for ds
    using that noiseFilter_filtering [of ds rawData] by (simp add: not_le)
  have unchanged: "noiseFilter rawData ds = ds"
    if "length ds \<le> 1 \<or> Max (dayVolume rawData ` set ds) \<le> 100"
    using that by (rule noiseFilter_unchanged)
  have rep: "\<exists>r. report nts rawData WEEKLY_KEY ds = Inr (Some r) \<and>
           dates r = Some (noiseFilter rawData ds)"
    if "rawData \<noteq> []"
  proof -
    obtain r where
      "weeklyReport nts rawData ds = Inr (Some r)" "dates r = Some (noiseFilter rawData ds)"
      using weeklyReport_returns [of nts rawData ds] by fastforce
    with that show ?thesis by (simp add: report_def)
  qed
  have example: "max 5 (rat_of_nat (Max (dayVolume rawData ` set [d1, d2, d3])) * (5 / 1000)) = 5 \<and>
      noiseFilter rawData [d1, d2, d3] = [d3]"
    if v: "dayVolume rawData d1 = 1 \<and> dayVolume rawData d2 = 1 \<and> dayVolume rawData d3 = 150"
  proof -
    have mx: "Max (dayVolume rawData ` set [d1, d2, d3]) = 150"
      using v by simp
    have "noiseFilter rawData [d1, d2, d3] =
        filter (\<lambda>d. \<not> rat_of_nat (dayVolume rawData d)
                        \<le> max 5 (rat_of_nat (Max (dayVolume rawData ` set [d1, d2, d3])) * (5 / 1000)))
          [d1, d2, d3]"
      by (rule filtering) (use v in simp)
    then show ?thesis
      using v by (simp add: mx)
  qed
  from filtering [of ds] unchanged rep example show ?thesis by blast
qed

lemma volume_dates:
  "extractDate (volumeRowA COL_ASYNC_TIME) = Some (js ''2024-03-01'')"
  "extractDate (volumeRowB COL_ASYNC_TIME) = Some (js ''2024-03-02'')"
  "extractDate (volumeRowC COL_ASYNC_TIME) = Some (js ''2024-03-03'')"
  by (simp_all add: volumeRowA_def volumeRowB_def volumeRowC_def date_defs string_defs)

lemma volume_dayVolume:
  "dayVolume volumeRows (js ''2024-03-01'') = 1"
  "dayVolume volumeRows (js ''2024-03-02'') = 1"
  "dayVolume volumeRows (js ''2024-03-03'') = 150"
  by (simp_all add: dayVolume_def dayRows_def volumeRows_def volume_dates js_def)

theorem C3_witness:
  "dayVolume volumeRows (js ''2024-03-01'') = 1 \<and>
   dayVolume volumeRows (js ''2024-03-02'') = 1 \<and>
   dayVolume volumeRows (js ''2024-03-03'') = 150 \<and>
   volumeRows \<noteq> [] \<and>
   noiseFilter volumeRows volumeDates = [js ''2024-03-03''] \<and>
   (\<exists>r. report sampleNumberToString volumeRows WEEKLY_KEY volumeDates = Inr (Some r) \<and>
        dates r = Some [js ''2024-03-03''])"
proof -
  have ne: "volumeRows \<noteq> []"
    by (simp add: volumeRows_def)
  from C3_noise_filter
         [of volumeDates volumeRows sampleNumberToString "js ''2024-03-01''"
             "js ''2024-03-02''" "js ''2024-03-03''"]
       volume_dayVolume ne
  show ?thesis
    by (auto simp: volumeDates_def)
qed

section \<open>When there is no report\<close>

lemmas report_defs =
  report_def weeklyReport_def singleReport_def weeklyLoop_def initAcc_def mkAvgStats_def
  strategyListOf_def tagListOf_def totalTagCountOf_def dayStep_def mergeStrategy_def
  addStats_def mergeTag_def dayRecallRate_def dayPrecision_def dayRisk_def

lemma replicate_numeral: "replicate (numeral k) x = x # replicate (pred_numeral k) x"
  by (simp add: numeral_eq_Suc)

lemma analyzeRows_Nil:
  "analyzeRows [] =
     \<lparr>totalRows = 0, machineRejectCount = 0, recallCount = 0, humanViolationCount = 0,
      blackSampleTotal = 0, strategyMap = [], tagMap = []\<rparr>"
  by (simp add: analyzeRows_def initState_def)

lemma report_weekly_no_dates:
  "report sampleNumberToString [undatedRow] WEEKLY_KEY [] = Inr (Some emptyWeeklyReport)"
  by (simp add: report_defs noiseFilter_def fdiv_zero number_defs emptyWeeklyReport_def
        js_def replicate_numeral)

lemma report_single_no_rows:
  "report sampleNumberToString scenarioRows otherDate [scenarioDate] =
     Inr (Some emptySingleReport)"
proof -
  have "dayRows scenarioRows otherDate = []"
    by (simp add: dayRows_def scenarioRows_def scenario_dates scenarioDate_def otherDate_def
          js_def)
  moreover have "otherDate \<noteq> WEEKLY_KEY"
    by (simp add: otherDate_def WEEKLY_KEY_def js_def)
  moreover have "scenarioRows \<noteq> []"
    by (simp add: scenarioRows_def)
  ultimately show ?thesis
    by (simp add: report_def singleReport_def analyzeRows_Nil strategyListOf_def tagListOf_def
          totalTagCountOf_def emptySingleReport_def)
qed

text \<open>The dates of a file are the dates of its rows.\<close>

lemma set_foldl_collectDate:
  "set (foldl collectDate ds data) =
     set ds \<union> {d. \<exists>row \<in> set data. extractDate (row COL_ASYNC_TIME) = Some d}"
proof (induction data arbitrary: ds)
  case Nil
  then show ?case by simp
next
  case (Cons row data)
  show ?case
  proof (cases "extractDate (row COL_ASYNC_TIME)")
    case None
    then show ?thesis
      using Cons [of ds] by (auto simp: collectDate_def)
  next
    case (Some d)
    then show ?thesis
      using Cons [of "Set_add ds d"] by (auto simp: collectDate_def Set_add_def)
  qed
qed

lemma availableDatesOf_empty:
  "availableDatesOf rawData = [] \<longleftrightarrow>
     (\<forall>row \<in> set rawData. extractDate (row COL_ASYNC_TIME) = None)"
proof -
  have "availableDatesOf rawData = [] \<longleftrightarrow> set (availableDatesOf rawData) = {}"
    by simp
  also have "\<dots> \<longleftrightarrow> {d. \<exists>row \<in> set rawData. extractDate (row COL_ASYNC_TIME) = Some d} = {}"
    by (simp add: availableDatesOf_def set_foldl_collectDate)
  also have "\<dots> \<longleftrightarrow> (\<forall>row \<in> set rawData. extractDate (row COL_ASYNC_TIME) = None)"
    by (auto simp: not_Some_eq [symmetric] simp del: not_Some_eq not_None_eq)
  finally show ?thesis .
qed

text \<open>The weekly report of a run that retains no date: the averages are those of zero
  totals over one day.\<close>

lemma weeklyReport_no_dates:
  assumes "noiseFilter rawData availableDates = []"
  shows "weeklyReport nts rawData availableDates = Inr (Some emptyWeeklyReport)"
proof -
  have zero: "formatDecimal nts (Finite 0) d =
      Inr (if d = 0 then js ''0'' else js ''0.'' @ replicate (nat d) 0x30)"
    if "0 \<le> d" "d \<le> 100" for d
    using that by (simp add: formatDecimal_def toFixed_def fixedDigits_zero js_def)
  have avg: "mkAvgStats nts initAcc 1 =
      Inr \<lparr>avg_totalRows = js ''0.00'', avg_machineRejectCount = js ''0.000'',
           avg_recallCount = js ''0.00'', avg_humanViolationCount = js ''0.00'',
           avg_blackSampleTotal = js ''0'', avg_recallRate = js ''0.00%'',
           avg_precision = js ''0.00%'', avg_riskLevel = js ''0.00%''\<rparr>"
    by (simp add: mkAvgStats_def initAcc_def fdiv_zero zero bindE_def)
       (simp add: js_def replicate_numeral)
  show ?thesis
    using assms avg
    by (simp add: weeklyReport_def weeklyLoop_def Let_def bindE_def emptyWeeklyReport_def)
       (simp add: initAcc_def strategyListOf_def tagListOf_def totalTagCountOf_def)
qed

text \<open>
  C2 (amended).  The report is the explicit "no report" result exactly when there are
  no input rows.  With input rows, a weekly run that retains no date returns a weekly
  report structure: an empty list of dates, zero totals, the averages of zero over one
  day (\<open>0.00\<close>, \<open>0.000\<close> for the machine rejects, \<open>0\<close> for the black samples,
  \<open>0.00%\<close> for the rates) and empty lists; and a single-day selection that matches no
  row returns a single-day report structure with zero counts.  The noise filter keeps
  a date of the largest volume, so that it retains no date only when it is given none;
  and with the dates of the file it retains no date exactly when no row has a date that
  can be read.
\<close>

theorem C2_no_report_only_without_rows:
  "(report nts rawData selectedDate availableDates = Inr None \<longleftrightarrow> rawData = []) \<and>
   (rawData \<noteq> [] \<and> selectedDate = WEEKLY_KEY \<and> noiseFilter rawData availableDates = [] \<longrightarrow>
      report nts rawData selectedDate availableDates = Inr (Some emptyWeeklyReport)) \<and>
   (rawData \<noteq> [] \<and> selectedDate \<noteq> WEEKLY_KEY \<and> dayRows rawData selectedDate = [] \<longrightarrow>
      (\<exists>r. report nts rawData selectedDate availableDates = Inr (Some r) \<and>
           mode r = SINGLE \<and> dateLabel r = selectedDate \<and>
           singleStats r = Some
             \<lparr>totalRows = 0, machineRejectCount = 0, recallCount = 0,
              humanViolationCount = 0, blackSampleTotal = 0, strategyMap = [], tagMap = []\<rparr> \<and>
           strategyList r = [] \<and> tagList r = [] \<and> totalTagCount r = 0)) \<and>
   (availableDates \<noteq> [] \<longrightarrow>
      (\<exists>d. d \<in> set (noiseFilter rawData availableDates) \<and>
           dayVolume rawData d = Max (dayVolume rawData ` set availableDates))) \<and>
   (noiseFilter rawData availableDates = [] \<longleftrightarrow> availableDates = []) \<and>
   (noiseFilter rawData (availableDatesOf rawData) = [] \<longleftrightarrow>
      (\<forall>row \<in> set rawData. extractDate (row COL_ASYNC_TIME) = None))"
proof -
  obtain r where w: "weeklyReport nts rawData availableDates = Inr (Some r)"
    using weeklyReport_returns [of nts rawData availableDates] by fastforce
  have null: "report nts rawData selectedDate availableDates = Inr None \<longleftrightarrow> rawData = []"
    using w by (simp add: report_def singleReport_def Let_def)
  have weekly: "report nts rawData selectedDate availableDates = Inr (Some emptyWeeklyReport)"
    if "rawData \<noteq> [] \<and> selectedDate = WEEKLY_KEY \<and> noiseFilter rawData availableDates = []"
    using that weeklyReport_no_dates [of rawData availableDates nts] by (simp add: report_def)
  have single: "\<exists>r. report nts rawData selectedDate availableDates = Inr (Some r) \<and>
           mode r = SINGLE \<and> dateLabel r = selectedDate \<and>
           singleStats r = Some
             \<lparr>totalRows = 0, machineRejectCount = 0, recallCount = 0,
              humanViolationCount = 0, blackSampleTotal = 0, strategyMap = [], tagMap = []\<rparr> \<and>
           strategyList r = [] \<and> tagList r = [] \<and> totalTagCount r = 0"
    if "rawData \<noteq> [] \<and> selectedDate \<noteq> WEEKLY_KEY \<and> dayRows rawData selectedDate = []"
    using that
    by (simp add: report_def singleReport_def analyzeRows_Nil strategyListOf_def tagListOf_def
          totalTagCountOf_def)
  have keeps: "\<exists>d. d \<in> set (noiseFilter rawData availableDates) \<and>
           dayVolume rawData d = Max (dayVolume rawData ` set availableDates)"
    if "availableDates \<noteq> []"
    using noiseFilter_keeps_max [OF that, of rawData] by blast
  have dated: "noiseFilter rawData (availableDatesOf rawData) = [] \<longleftrightarrow>
      (\<forall>row \<in> set rawData. extractDate (row COL_ASYNC_TIME) = None)"
    by (simp add: noiseFilter_empty availableDatesOf_empty)
  from null weekly single keeps noiseFilter_empty [of rawData availableDates] dated
  show ?thesis by blast
qed

lemma volume_max: "Max (dayVolume volumeRows ` set volumeDates) = 150"
  by (simp add: volumeDates_def volume_dayVolume)

theorem C2_witness:
  "[undatedRow] \<noteq> [] \<and> noiseFilter [undatedRow] [] = [] \<and>
   report sampleNumberToString [undatedRow] WEEKLY_KEY [] = Inr (Some emptyWeeklyReport) \<and>
   report sampleNumberToString [undatedRow] WEEKLY_KEY [] \<noteq> Inr None \<and>
   report sampleNumberToString [] WEEKLY_KEY [] = Inr None \<and>
   scenarioRows \<noteq> [] \<and> otherDate \<noteq> WEEKLY_KEY \<and> dayRows scenarioRows otherDate = [] \<and>
   (\<exists>r. report sampleNumberToString scenarioRows otherDate [scenarioDate] = Inr (Some r) \<and>
        mode r = SINGLE \<and> strategyList r = []) \<and>
   volumeDates \<noteq> [] \<and>
   (\<exists>d. d \<in> set (noiseFilter volumeRows volumeDates) \<and> dayVolume volumeRows d = 150) \<and>
   extractDate (undatedRow COL_ASYNC_TIME) = None \<and>
   noiseFilter [undatedRow] (availableDatesOf [undatedRow]) = [] \<and>
   extractDate (scenarioRow1 COL_ASYNC_TIME) = Some scenarioDate \<and>
   noiseFilter scenarioRows (availableDatesOf scenarioRows) \<noteq> []"
proof -
  have a: "dayRows scenarioRows otherDate = []"
    by (simp add: dayRows_def scenarioRows_def scenario_dates scenarioDate_def otherDate_def
          js_def)
  have b: "otherDate \<noteq> WEEKLY_KEY"
    by (simp add: otherDate_def WEEKLY_KEY_def js_def)
  have c: "scenarioRows \<noteq> []"
    by (simp add: scenarioRows_def)
  have d: "noiseFilter [undatedRow] [] = []"
    by (simp add: noiseFilter_def)
  have e: "extractDate (undatedRow COL_ASYNC_TIME) = None"
    by (simp add: undatedRow_def date_defs string_defs)
  have f: "volumeDates \<noteq> []"
    by (simp add: volumeDates_def)
  have g: "scenarioRow1 \<in> set scenarioRows"
    by (simp add: scenarioRows_def)
  have weekly:
    "report sampleNumberToString [undatedRow] WEEKLY_KEY [] = Inr (Some emptyWeeklyReport)"
    "report sampleNumberToString [undatedRow] WEEKLY_KEY [] \<noteq> Inr None"
    using C2_no_report_only_without_rows [of sampleNumberToString "[undatedRow]" WEEKLY_KEY "[]"]
      d by simp_all
  have null: "report sampleNumberToString [] WEEKLY_KEY [] = Inr None"
    using C2_no_report_only_without_rows [of sampleNumberToString "[]" WEEKLY_KEY "[]"]
    by simp
  have single: "\<exists>r. report sampleNumberToString scenarioRows otherDate [scenarioDate] =
        Inr (Some r) \<and> mode r = SINGLE \<and> strategyList r = []"
    using C2_no_report_only_without_rows
        [of sampleNumberToString scenarioRows otherDate "[scenarioDate]"] a b c
    by auto
  have keeps: "\<exists>d. d \<in> set (noiseFilter volumeRows volumeDates) \<and>
      dayVolume volumeRows d = 150"
    using C2_no_report_only_without_rows [of sampleNumberToString volumeRows WEEKLY_KEY volumeDates]
      f volume_max by auto
  have none: "noiseFilter [undatedRow] (availableDatesOf [undatedRow]) = []"
    using C2_no_report_only_without_rows [of sampleNumberToString "[undatedRow]" WEEKLY_KEY "[]"]
      e by simp
  have some: "noiseFilter scenarioRows (availableDatesOf scenarioRows) \<noteq> []"
    using C2_no_report_only_without_rows
        [of sampleNumberToString scenarioRows WEEKLY_KEY "[scenarioDate]"]
      g scenario_dates(1)
    by (metis option.distinct(1))
  from a b c d e f weekly null single keeps none some scenario_dates(1) show ?thesis
    by simp
qed

text \<open>
  The claim as stated fails where rows exist and no data is retained: a file whose
  rows carry no date has no dates at all, and its weekly report is a report structure;
  so is the report of a day that no row belongs to.
\<close>

theorem C2_counterexample:
  "availableDatesOf [undatedRow] = [] \<and>
   report sampleNumberToString [undatedRow] WEEKLY_KEY (availableDatesOf [undatedRow]) =
     Inr (Some emptyWeeklyReport) \<and>
   report sampleNumberToString [undatedRow] WEEKLY_KEY (availableDatesOf [undatedRow]) \<noteq>
     Inr None \<and>
   dayRows scenarioRows otherDate = [] \<and>
   report sampleNumberToString scenarioRows otherDate [scenarioDate] =
     Inr (Some emptySingleReport) \<and>
   report sampleNumberToString scenarioRows otherDate [scenarioDate] \<noteq> Inr None"
proof -
  have e: "extractDate (undatedRow COL_ASYNC_TIME) = None"
    by (simp add: undatedRow_def date_defs string_defs)
  have av: "availableDatesOf [undatedRow] = []"
    by (simp add: availableDatesOf_def collectDate_def e)
  have a: "dayRows scenarioRows otherDate = []"
    by (simp add: dayRows_def scenarioRows_def scenario_dates scenarioDate_def otherDate_def
          js_def)
  show ?thesis
    by (simp add: av a report_weekly_no_dates report_single_no_rows)
qed

section \<open>Tag statistics\<close>

text \<open>The components of the state of the row loop are folds of their own.\<close>

lemma foldl_rowStep_fields:
  "st_tagMap (foldl rowStep st rows) = foldl (\<lambda>tm r. rowTags r tm) (st_tagMap st) rows"
  "st_strategyMap (foldl rowStep st rows) =
     foldl (\<lambda>sm r. rowStrategies r sm) (st_strategyMap st) rows"
  "st_machineRejectCount (foldl rowStep st rows) =
     st_machineRejectCount st + length (filter isMachineReject rows)"
  "st_recallCount (foldl rowStep st rows) = st_recallCount st + length (filter isHumanSent rows)"
  "st_humanViolationCount (foldl rowStep st rows) =
     st_humanViolationCount st + length (filter isHumanViolation rows)"
  by (induction rows arbitrary: st) (simp_all add: rowStep_def)

lemma analyzeRows_fields:
  "tagMap (analyzeRows rows) = foldl (\<lambda>tm r. rowTags r tm) [] rows"
  "strategyMap (analyzeRows rows) = foldl (\<lambda>sm r. rowStrategies r sm) [] rows"
  "totalRows (analyzeRows rows) = length rows"
  "machineRejectCount (analyzeRows rows) = length (filter isMachineReject rows)"
  "recallCount (analyzeRows rows) = length (filter isHumanSent rows)"
  "humanViolationCount (analyzeRows rows) = length (filter isHumanViolation rows)"
  "blackSampleTotal (analyzeRows rows) =
     length (filter isMachineReject rows) + length (filter isHumanViolation rows)"
  by (simp_all add: analyzeRows_def Let_def foldl_rowStep_fields initState_def)

lemma getOrZero_tagStep:
  "getOrZero (tagStep tm t) k = getOrZero tm k + (if k = t then 1 else 0)"
  by (simp add: tagStep_def getOrZero_def update_conv')

lemma getOrZero_foldl_tagStep:
  "getOrZero (foldl tagStep tm ts) k = getOrZero tm k + count_list ts k"
  by (induction ts arbitrary: tm) (simp_all add: getOrZero_tagStep)

text \<open>The set of a row holds each canonical tag of the row once.\<close>

lemma foldl_tokenStep:
  "distinct acc \<Longrightarrow>
   distinct (foldl tokenStep acc toks) \<and>
   set (foldl tokenStep acc toks) =
     set acc \<union>
     set (map (lookupOr TAG_MERGE_MAPPING) (filter (\<lambda>tag. \<not> isInvalidTag tag) (map trim toks)))"
proof (induction toks arbitrary: acc)
  case Nil
  then show ?case by simp
next
  case (Cons t toks)
  have d: "distinct (tokenStep acc t)"
    using Cons.prems by (simp add: tokenStep_def Let_def Set_add_def)
  have s: "set (tokenStep acc t) =
      set acc \<union> (if isInvalidTag (trim t) then {} else {lookupOr TAG_MERGE_MAPPING (trim t)})"
    by (auto simp: tokenStep_def Let_def Set_add_def)
  from Cons.IH [OF d] s show ?case by auto
qed

lemma uniqueTagsInRow_canonical:
  "distinct (uniqueTagsInRow row)" "set (uniqueTagsInRow row) = set (canonicalTags row)"
  using foldl_tokenStep [of "[]" "tagTokens row"]
  by (simp_all add: uniqueTagsInRow_def canonicalTags_def)

lemma count_list_distinct:
  "distinct xs \<Longrightarrow> count_list xs x = (if x \<in> set xs then 1 else 0)"
  by (induction xs) auto

lemma getOrZero_rowTags:
  "getOrZero (rowTags row tm) t =
     getOrZero tm t + (if isHumanViolation row \<and> t \<in> set (canonicalTags row) then 1 else 0)"
proof (cases "isHumanViolation row")
  case False
  then show ?thesis by (simp add: rowTags_def)
next
  case True
  have "count_list (uniqueTagsInRow row) t = (if t \<in> set (canonicalTags row) then 1 else 0)"
    using uniqueTagsInRow_canonical [of row] count_list_distinct [of "uniqueTagsInRow row" t]
    by simp
  with True show ?thesis
    by (simp add: rowTags_def getOrZero_foldl_tagStep)
qed

lemma getOrZero_foldl_rowTags:
  "getOrZero (foldl (\<lambda>tm r. rowTags r tm) tm rows) t =
     getOrZero tm t +
     length (filter (\<lambda>r. isHumanViolation r \<and> t \<in> set (canonicalTags r)) rows)"
  by (induction rows arbitrary: tm) (simp_all add: getOrZero_rowTags)

text \<open>
  C4.  A row whose human status is the violation adds exactly one to the count of each
  canonical tag that survives from its tag field, however often the field names it,
  and nothing to any other count; a row of another status leaves the tag counts alone.
  The count of a tag in the aggregator's output is therefore the number of violation
  rows in which it survives.  A violation row with the tag field \<open>A&&A&&B\<close> counts
  one for \<open>A\<close> and one for \<open>B\<close>.
\<close>

theorem C4_tag_once_per_row:
  "(isHumanViolation row \<longrightarrow>
      getOrZero (rowTags row tm) t =
        getOrZero tm t + (if t \<in> set (canonicalTags row) then 1 else 0)) \<and>
   (\<not> isHumanViolation row \<longrightarrow> rowTags row tm = tm) \<and>
   getOrZero (tagMap (analyzeRows rows)) t =
     length (filter (\<lambda>r. isHumanViolation r \<and> t \<in> set (canonicalTags r)) rows) \<and>
   (isHumanViolation row \<and> row COL_HUMAN_TAGS = Some (js ''A&&A&&B'') \<longrightarrow>
      canonicalTags row = [Str (js ''A''), Str (js ''A''), Str (js ''B'')] \<and>
      tagMap (analyzeRows [row]) = [(Str (js ''A''), 1), (Str (js ''B''), 1)])"
proof -
  have total: "getOrZero (tagMap (analyzeRows rows)) t =
     length (filter (\<lambda>r. isHumanViolation r \<and> t \<in> set (canonicalTags r)) rows)"
    using getOrZero_foldl_rowTags [of "[]" rows t]
    by (simp add: analyzeRows_fields getOrZero_def)
  have example: "canonicalTags row = [Str (js ''A''), Str (js ''A''), Str (js ''B'')] \<and>
      tagMap (analyzeRows [row]) = [(Str (js ''A''), 1), (Str (js ''B''), 1)]"
    if "isHumanViolation row \<and> row COL_HUMAN_TAGS = Some (js ''A&&A&&B'')"
    using that
    by (simp add: analyzeRows_fields rowTags_def uniqueTagsInRow_def canonicalTags_def
          tagTokens_def tokenStep_def isInvalidTag_def Set_add_def tagStep_def getOrZero_def
          string_defs)
  have step: "isHumanViolation row \<longrightarrow>
      getOrZero (rowTags row tm) t =
        getOrZero tm t + (if t \<in> set (canonicalTags row) then 1 else 0)"
    using getOrZero_rowTags [of row tm t] by simp
  have other: "\<not> isHumanViolation row \<longrightarrow> rowTags row tm = tm"
    by (simp add: rowTags_def)
  from step other total example show ?thesis by blast
qed

theorem C4_witness:
  "isHumanViolation dupTagRow \<and> dupTagRow COL_HUMAN_TAGS = Some (js ''A&&A&&B'') \<and>
   getOrZero (rowTags dupTagRow []) (Str (js ''A'')) = 1 \<and>
   getOrZero (rowTags dupTagRow []) (Str (js ''B'')) = 1 \<and>
   tagMap (analyzeRows [dupTagRow]) = [(Str (js ''A''), 1), (Str (js ''B''), 1)] \<and>
   \<not> isHumanViolation scenarioRow2 \<and>
   rowTags scenarioRow2 [(Str (js ''A''), 1)] = [(Str (js ''A''), 1)]"
proof -
  have v: "isHumanViolation dupTagRow"
    by (simp add: dupTagRow_def isHumanViolation_def humanStatus_def string_defs)
  have f: "dupTagRow COL_HUMAN_TAGS = Some (js ''A&&A&&B'')"
    by (simp add: dupTagRow_def string_defs)
  have n: "\<not> isHumanViolation scenarioRow2"
    by (simp add: scenarioRow2_def isHumanViolation_def humanStatus_def string_defs)
  from C4_tag_once_per_row [of dupTagRow "[]" "Str (js ''A'')" "[dupTagRow]"]
       C4_tag_once_per_row [of dupTagRow "[]" "Str (js ''B'')" "[dupTagRow]"]
       C4_tag_once_per_row [of scenarioRow2 "[(Str (js ''A''), 1)]" "Str (js ''A'')" "[]"]
       v f n
  show ?thesis
    by (simp add: getOrZero_def)
qed

section \<open>The tag list\<close>

lemma tagListOf_sorted:
  "\<exists>s. mset s = mset tm \<and> sorted_wrt (\<lambda>a b. snd b \<le> snd a) s \<and>
       (\<forall>c. filter (\<lambda>e. snd e = c) s = filter (\<lambda>e. snd e = c) tm) \<and>
       tagListOf tm = take 35 s"
proof -
  define s where "s = sort_key (\<lambda>a. - int (snd a)) tm"
  have "sorted (map (\<lambda>a. - int (snd a)) s)"
    unfolding s_def by (rule sorted_sort_key)
  then have 1: "sorted_wrt (\<lambda>a b. snd b \<le> snd a) s"
    by (simp add: sorted_map)
  have 2: "filter (\<lambda>e. snd e = c) s = filter (\<lambda>e. snd e = c) tm" for c
  proof -
    have "filter (\<lambda>e. - int (snd e) = - int c) s = filter (\<lambda>e. - int (snd e) = - int c) tm"
      unfolding s_def by (rule sort_key_stable)
    then show ?thesis by simp
  qed
  have 3: "mset s = mset tm"
    by (simp add: s_def)
  have 4: "tagListOf tm = take 35 s"
    by (simp add: tagListOf_def s_def)
  from 1 2 3 4 show ?thesis by blast
qed

lemma totalTagCountOf_sum: "totalTagCountOf es = sum_list (map snd es)"
proof -
  have "foldl (\<lambda>acc curr. acc + snd curr) a es = a + sum_list (map snd es)" for a
    by (induction es arbitrary: a) simp_all
  then show ?thesis by (simp add: totalTagCountOf_def)
qed

lemma desc_of_mset:
  fixes xs :: "nat list"
  assumes "sorted_wrt (\<lambda>a b. b \<le> a) xs" and "mset xs = mset ys" and "sorted ys"
  shows "xs = rev ys"
proof -
  have "sorted (rev xs)"
    using assms(1) by (simp add: sorted_wrt_rev)
  moreover have "mset (rev xs) = mset ys"
    using assms(2) by simp
  ultimately have "rev xs = ys"
    using assms(3) by (metis properties_for_sort sorted_sort_id)
  then show ?thesis by (metis rev_rev_ident)
qed

text \<open>Forty entries with the counts 1 to 40, in any order.\<close>

lemma top35_of_forty:
  assumes "mset (map snd tm) = mset [1..<41]"
  shows "map snd (tagListOf tm) = rev [6..<41] \<and> totalTagCountOf (tagListOf tm) = 805"
proof -
  obtain s where s: "mset s = mset tm" "sorted_wrt (\<lambda>a b. snd b \<le> snd a) s"
      "tagListOf tm = take 35 s"
    using tagListOf_sorted [of tm] by blast
  have "sorted_wrt (\<lambda>a b. b \<le> a) (map snd s)"
    using s(2) by (simp add: sorted_wrt_map)
  moreover have "mset (map snd s) = mset [1..<41]"
    using s(1) assms by (metis mset_map)
  ultimately have ms: "map snd s = rev [1..<41]"
    by (rule desc_of_mset) simp
  have "map snd (tagListOf tm) = take 35 (map snd s)"
    by (simp only: s(3) take_map)
  then have "map snd (tagListOf tm) = take 35 (rev [1..<41])"
    by (simp only: ms)
  also have "\<dots> = rev [6..<41]"
    by (simp add: take_rev drop_upt)
  finally have a: "map snd (tagListOf tm) = rev [6..<41]" .
  have "sum_list (rev [6..<41]) = (805::nat)"
    by code_simp
  then show ?thesis
    using a by (simp add: totalTagCountOf_sum)
qed

subsection \<open>Rows that carry one tag each\<close>

lemma update_fresh: "k \<notin> fst ` set al \<Longrightarrow> AList.update k v al = al @ [(k, v)]"
  by (induction al) auto

lemma update_last_entry:
  "k \<notin> fst ` set al \<Longrightarrow> AList.update k v (al @ [(k, c)]) = al @ [(k, v)]"
  by (induction al) auto

lemma getOrZero_fresh: "k \<notin> fst ` set al \<Longrightarrow> getOrZero al k = 0"
proof -
  assume "k \<notin> fst ` set al"
  then have "map_of al k = None"
    by (simp add: map_of_eq_None_iff)
  then show ?thesis by (simp add: getOrZero_def)
qed

lemma getOrZero_last_entry: "k \<notin> fst ` set al \<Longrightarrow> getOrZero (al @ [(k, c)]) k = c"
proof -
  assume "k \<notin> fst ` set al"
  then have "map_of al k = None"
    by (simp add: map_of_eq_None_iff)
  then show ?thesis by (simp add: getOrZero_def map_add_def)
qed

lemma tag_block_cont:
  assumes "t \<notin> fst ` set tm" and "isHumanViolation r" and "uniqueTagsInRow r = [t]"
  shows "foldl (\<lambda>tm r. rowTags r tm) (tm @ [(t, c)]) (replicate n r) = tm @ [(t, c + n)]"
proof (induction n arbitrary: c)
  case 0
  then show ?case by simp
next
  case (Suc n)
  have "rowTags r (tm @ [(t, c)]) = tm @ [(t, c + 1)]"
    using assms
    by (simp add: rowTags_def tagStep_def getOrZero_last_entry update_last_entry)
  then show ?case
    using Suc.IH [of "c + 1"] by simp
qed

lemma tag_block:
  assumes "t \<notin> fst ` set tm" and "isHumanViolation r" and "uniqueTagsInRow r = [t]"
    and "0 < n"
  shows "foldl (\<lambda>tm r. rowTags r tm) tm (replicate n r) = tm @ [(t, n)]"
proof -
  obtain m where n: "n = Suc m"
    using assms(4) by (cases n) auto
  have "rowTags r tm = tm @ [(t, 1)]"
    using assms(1-3) by (simp add: rowTags_def tagStep_def getOrZero_fresh update_fresh)
  then show ?thesis
    using tag_block_cont [OF assms(1-3), of 1 m] by (simp add: n)
qed

lemma tag_blocks:
  assumes "\<forall>k \<in> set ks. 0 < k \<and> isHumanViolation (row k) \<and> uniqueTagsInRow (row k) = [key k]"
    and "distinct (map key ks)" and "fst ` set tm \<inter> key ` set ks = {}"
  shows "foldl (\<lambda>tm r. rowTags r tm) tm (concat (map (\<lambda>k. replicate k (row k)) ks)) =
     tm @ map (\<lambda>k. (key k, k)) ks"
  using assms
proof (induction ks arbitrary: tm)
  case Nil
  then show ?case by simp
next
  case (Cons k ks)
  have fresh: "key k \<notin> fst ` set tm"
    using Cons.prems(3) by auto
  have blk: "foldl (\<lambda>tm r. rowTags r tm) tm (replicate k (row k)) = tm @ [(key k, k)]"
    using Cons.prems(1) by (intro tag_block fresh) simp_all
  have "fst ` set (tm @ [(key k, k)]) \<inter> key ` set ks = {}"
    using Cons.prems(2,3) by auto
  then have "foldl (\<lambda>tm r. rowTags r tm) (tm @ [(key k, k)])
        (concat (map (\<lambda>k. replicate k (row k)) ks)) =
      (tm @ [(key k, k)]) @ map (\<lambda>k. (key k, k)) ks"
    using Cons.prems(1,2) by (intro Cons.IH) simp_all
  then show ?case
    by (simp add: blk)
qed

lemma plain_token:
  assumes "a < 10" and "b < 10"
  shows "foldl tokenStep [] (splitTags [] [0x54, 0x30 + a, 0x30 + b]) =
     [Str [0x54, 0x30 + a, 0x30 + b]]"
  using assms
  by (simp add: tokenStep_def isInvalidTag_def Set_add_def string_defs)

lemma oneTagRow_facts:
  assumes "k < 100"
  shows "isHumanViolation (oneTagRow k)"
    and "uniqueTagsInRow (oneTagRow k) = [Str (tagName k)]"
    and "extractDate (oneTagRow k COL_ASYNC_TIME) = Some scenarioDate"
proof -
  have d: "k div 10 < 10" "k mod 10 < 10"
    using assms by simp_all
  show "isHumanViolation (oneTagRow k)"
    by (simp add: oneTagRow_def isHumanViolation_def humanStatus_def string_defs)
  show "extractDate (oneTagRow k COL_ASYNC_TIME) = Some scenarioDate"
    by (simp add: oneTagRow_def scenarioDate_def date_defs string_defs)
  have "oneTagRow k COL_HUMAN_TAGS = Some (tagName k)"
    by (simp add: oneTagRow_def string_defs)
  then show "uniqueTagsInRow (oneTagRow k) = [Str (tagName k)]"
    using plain_token [OF d] by (simp add: uniqueTagsInRow_def tagTokens_def tagName_def)
qed

lemma tagIndices_upt: "tagIndices = [1..<41]"
  unfolding tagIndices_def by code_simp

lemma tagIndices_bounds: "\<forall>k \<in> set tagIndices. 0 < k \<and> k < 100"
  by (simp add: tagIndices_upt)

lemma tagName_distinct: "distinct (map (\<lambda>k. Str (tagName k)) tagIndices)"
  unfolding tagIndices_def tagName_def by code_simp

lemma tagRows_tagMap:
  "tagMap (analyzeRows tagRows) = map (\<lambda>k. (Str (tagName k), k)) tagIndices"
proof -
  have "\<forall>k \<in> set tagIndices. 0 < k \<and> isHumanViolation (oneTagRow k) \<and>
      uniqueTagsInRow (oneTagRow k) = [Str (tagName k)]"
    using tagIndices_bounds by (simp add: oneTagRow_facts)
  then have "foldl (\<lambda>tm r. rowTags r tm) [] (concat (map (\<lambda>k. replicate k (oneTagRow k)) tagIndices)) =
      [] @ map (\<lambda>k. (Str (tagName k), k)) tagIndices"
    using tagName_distinct by (intro tag_blocks) simp_all
  then show ?thesis
    by (simp add: analyzeRows_fields tagRows_def)
qed

lemma tagRows_dayRows: "dayRows tagRows scenarioDate = tagRows"
proof -
  have "extractDate (r COL_ASYNC_TIME) = Some scenarioDate" if "r \<in> set tagRows" for r
  proof -
    from that obtain k where "k \<in> set tagIndices" "r = oneTagRow k"
      by (auto simp: tagRows_def split: if_splits)
    then show ?thesis
      using tagIndices_bounds by (simp add: oneTagRow_facts)
  qed
  then show ?thesis
    by (simp add: dayRows_def)
qed

lemma tagRows_nonempty: "tagRows \<noteq> []"
proof -
  have "oneTagRow 1 \<in> set tagRows"
    by (auto simp: tagRows_def tagIndices_upt intro!: bexI [where x = "Suc 0"])
  then show ?thesis by auto
qed

lemma scenarioDate_not_weekly: "scenarioDate \<noteq> WEEKLY_KEY"
  by (simp add: scenarioDate_def WEEKLY_KEY_def js_def)

text \<open>
  C5 (amended).  In both report modes the tag list is the first 35 entries of the
  merged tag entries sorted by descending count, entries of equal count staying in
  their insertion order, and \<open>totalTagCount\<close> is the sum of the counts of that list
  only.  With 40 tags of the counts 40, 39, ..., 1 the tag list has the counts 40 down
  to 6 and \<open>totalTagCount\<close> is their sum, 805.
\<close>

theorem C5_tag_list_top35:
  "rawData \<noteq> [] \<longrightarrow>
     (\<exists>r s. report nts rawData selectedDate availableDates = Inr (Some r) \<and>
        mset s = mset (mergedTagMap rawData selectedDate availableDates) \<and>
        sorted_wrt (\<lambda>a b. snd b \<le> snd a) s \<and>
        (\<forall>c. filter (\<lambda>e. snd e = c) s =
               filter (\<lambda>e. snd e = c) (mergedTagMap rawData selectedDate availableDates)) \<and>
        tagList r = take 35 s \<and>
        totalTagCount r = sum_list (map snd (tagList r)) \<and>
        (mset (map snd (mergedTagMap rawData selectedDate availableDates)) = mset [1..<41] \<longrightarrow>
           map snd (tagList r) = rev [6..<41] \<and> totalTagCount r = 805))"
proof
  assume ne: "rawData \<noteq> []"
  define tm where "tm = mergedTagMap rawData selectedDate availableDates"
  obtain r where r: "report nts rawData selectedDate availableDates = Inr (Some r)"
    and tl: "tagList r = tagListOf tm" and tc: "totalTagCount r = totalTagCountOf (tagListOf tm)"
  proof (cases "selectedDate = WEEKLY_KEY")
    case True
    obtain r where
      "weeklyReport nts rawData availableDates = Inr (Some r)"
      "tagList r = tagListOf (acc_aggTagMap (weeklyLoop rawData (noiseFilter rawData availableDates)))"
      "totalTagCount r =
         totalTagCountOf
           (tagListOf (acc_aggTagMap (weeklyLoop rawData (noiseFilter rawData availableDates))))"
      using weeklyReport_returns [of nts rawData availableDates] by fastforce
    with True ne that show ?thesis
      by (simp add: report_def tm_def mergedTagMap_def)
  next
    case False
    with ne that show ?thesis
      by (simp add: report_def singleReport_def Let_def tm_def mergedTagMap_def)
  qed
  obtain s where s: "mset s = mset tm" "sorted_wrt (\<lambda>a b. snd b \<le> snd a) s"
      "\<forall>c. filter (\<lambda>e. snd e = c) s = filter (\<lambda>e. snd e = c) tm"
      "tagListOf tm = take 35 s"
    using tagListOf_sorted [of tm] by blast
  have forty: "map snd (tagList r) = rev [6..<41] \<and> totalTagCount r = 805"
    if "mset (map snd tm) = mset [1..<41]"
    using top35_of_forty [OF that] by (simp add: tl tc)
  have "totalTagCount r = sum_list (map snd (tagList r))"
    by (simp add: tl tc totalTagCountOf_sum)
  with r s forty tl
  show "\<exists>r s. report nts rawData selectedDate availableDates = Inr (Some r) \<and>
        mset s = mset (mergedTagMap rawData selectedDate availableDates) \<and>
        sorted_wrt (\<lambda>a b. snd b \<le> snd a) s \<and>
        (\<forall>c. filter (\<lambda>e. snd e = c) s =
               filter (\<lambda>e. snd e = c) (mergedTagMap rawData selectedDate availableDates)) \<and>
        tagList r = take 35 s \<and>
        totalTagCount r = sum_list (map snd (tagList r)) \<and>
        (mset (map snd (mergedTagMap rawData selectedDate availableDates)) = mset [1..<41] \<longrightarrow>
           map snd (tagList r) = rev [6..<41] \<and> totalTagCount r = 805)"
    unfolding tm_def [symmetric] by auto
qed

theorem C5_witness:
  "tagRows \<noteq> [] \<and>
   mset (map snd (mergedTagMap tagRows scenarioDate [scenarioDate])) = mset [1..<41] \<and>
   reportTagSummary (report sampleNumberToString tagRows scenarioDate [scenarioDate]) =
     Some (rev [6..<41], 805)"
proof -
  have m: "mergedTagMap tagRows scenarioDate [scenarioDate] =
      map (\<lambda>k. (Str (tagName k), k)) tagIndices"
    by (simp add: mergedTagMap_def scenarioDate_not_weekly tagRows_dayRows tagRows_tagMap)
  have ms: "mset (map snd (mergedTagMap tagRows scenarioDate [scenarioDate])) = mset [1..<41]"
    by (simp add: m comp_def tagIndices_upt)
  obtain r where
    "report sampleNumberToString tagRows scenarioDate [scenarioDate] = Inr (Some r)"
    "map snd (tagList r) = rev [6..<41]" "totalTagCount r = 805"
    using C5_tag_list_top35 [of tagRows sampleNumberToString scenarioDate "[scenarioDate]"]
      tagRows_nonempty ms
    by blast
  then have "reportTagSummary (report sampleNumberToString tagRows scenarioDate [scenarioDate]) =
     Some (rev [6..<41], 805)"
    by (simp add: reportTagSummary_def)
  with tagRows_nonempty ms show ?thesis
    by blast
qed

text \<open>The claim as stated gives 943 for the total of the forty-tag example; the sum of
  the counts 6 to 40 is 805.\<close>

theorem C5_counterexample:
  "reportTagSummary (report sampleNumberToString tagRows scenarioDate [scenarioDate]) =
     Some ([40, 39, 38, 37, 36, 35, 34, 33, 32, 31, 30, 29, 28, 27, 26, 25, 24, 23, 22, 21,
            20, 19, 18, 17, 16, 15, 14, 13, 12, 11, 10, 9, 8, 7, 6], 805) \<and>
   map_option snd
     (reportTagSummary (report sampleNumberToString tagRows scenarioDate [scenarioDate])) \<noteq>
     Some 943"
proof -
  have m: "tagMap (analyzeRows (dayRows tagRows scenarioDate)) =
      map (\<lambda>k. (Str (tagName k), k)) tagIndices"
    by (simp add: tagRows_dayRows tagRows_tagMap)
  have "mset (map snd (tagMap (analyzeRows (dayRows tagRows scenarioDate)))) = mset [1..<41]"
    by (simp add: m comp_def tagIndices_upt)
  then have t: "map snd (tagListOf (tagMap (analyzeRows (dayRows tagRows scenarioDate)))) =
        rev [6..<41] \<and>
      totalTagCountOf (tagListOf (tagMap (analyzeRows (dayRows tagRows scenarioDate)))) = 805"
    by (rule top35_of_forty)
  have l: "rev [6..<41] =
      [40, 39, 38, 37, 36, 35, 34, 33, 32, 31, 30, 29, 28, 27, 26, 25, 24, 23, 22, 21,
       20, 19, 18, 17, 16, 15, 14, 13, 12, 11, 10, 9, 8, 7, 6::nat]"
    by code_simp
  have "reportTagSummary (report sampleNumberToString tagRows scenarioDate [scenarioDate]) =
      Some (rev [6..<41], 805)"
    using t tagRows_nonempty scenarioDate_not_weekly
    by (simp add: reportTagSummary_def report_def singleReport_def Let_def)
  then show ?thesis
    by (simp add: l)
qed

section \<open>The daily averages\<close>











section \<open>Additivity of the aggregator\<close>

subsection \<open>Strategy maps\<close>

text \<open>
  A count field \<open>f\<close> of a strategy entry: zero in a fresh entry, raised by an increment
  \<open>d row\<close> that depends on the row only, and added field-wise by the weekly merge.
\<close>

lemma statAt_Nil: "statAt f [] k = 0"
  by (simp add: statAt_def)

lemma statAt_strategyStep:
  assumes fresh: "\<And>k. f (freshStats k) = 0"
    and bump: "\<And>s. f (bumpStats row s) = f s + d"
  shows "statAt f (strategyStep row sm raw) k =
     statAt f sm k +
     (if trim raw \<noteq> [] \<and> k = lookupOr STRATEGY_MAPPING (trim raw) then d else 0)"
proof (cases "trim raw = []")
  case True
  then show ?thesis by (simp add: strategyStep_def)
next
  case False
  define k0 where "k0 = lookupOr STRATEGY_MAPPING (trim raw)"
  have eq: "strategyStep row sm raw = AList.update k0 (bumpStats row (getOrCreate sm k0)) sm"
    using False by (simp add: strategyStep_def Let_def k0_def)
  have "f (bumpStats row (getOrCreate sm k0)) = statAt f sm k0 + d"
    by (cases "map_of sm k0") (simp_all add: bump getOrCreate_def statAt_def fresh)
  then show ?thesis
    using False unfolding eq k0_def [symmetric]
    by (simp add: statAt_def update_conv')
qed

lemma statAt_foldl_strategyStep:
  assumes fresh: "\<And>k. f (freshStats k) = 0"
    and bump: "\<And>s. f (bumpStats row s) = f s + d"
  shows "statAt f (foldl (strategyStep row) sm raws) k =
     statAt f sm k + statAt f (foldl (strategyStep row) [] raws) k"
proof -
  have gen: "statAt f (foldl (strategyStep row) sm raws) k =
      statAt f sm k +
      (\<Sum>raw\<leftarrow>raws. if trim raw \<noteq> [] \<and> k = lookupOr STRATEGY_MAPPING (trim raw)
                      then d else 0)" for sm
    by (induction raws arbitrary: sm)
       (simp_all add: statAt_strategyStep [where f = f and d = d, OF fresh bump])
  show ?thesis
    using gen [of sm] gen [of "[]"] by (simp add: statAt_Nil)
qed

lemma rowStrategies_tokens:
  "rowStrategies row sm = foldl (strategyStep row) sm (strategyTokens row)"
  by (simp add: rowStrategies_def strategyTokens_def split: option.splits)

lemma statAt_rowStrategies:
  assumes fresh: "\<And>k. f (freshStats k) = 0"
    and bump: "\<And>row s. f (bumpStats row s) = f s + d row"
  shows "statAt f (rowStrategies row sm) k =
     statAt f sm k + statAt f (rowStrategies row []) k"
proof -
  have "statAt f (foldl (strategyStep row) sm raws) k =
     statAt f sm k + statAt f (foldl (strategyStep row) [] raws) k" for raws
    by (rule statAt_foldl_strategyStep [where d = "d row"]) (simp_all add: fresh bump)
  then show ?thesis
    by (simp add: rowStrategies_tokens)
qed

lemma statAt_foldl_rowStrategies:
  assumes fresh: "\<And>k. f (freshStats k) = 0"
    and bump: "\<And>row s. f (bumpStats row s) = f s + d row"
  shows "statAt f (foldl (\<lambda>sm r. rowStrategies r sm) sm rows) k =
     statAt f sm k + statAt f (foldl (\<lambda>sm r. rowStrategies r sm) [] rows) k"
proof -
  have gen: "statAt f (foldl (\<lambda>sm r. rowStrategies r sm) sm rows) k =
      statAt f sm k + (\<Sum>r\<leftarrow>rows. statAt f (rowStrategies r []) k)" for sm
  proof (induction rows arbitrary: sm)
    case Nil
    then show ?case by simp
  next
    case (Cons r rows)
    have "statAt f (rowStrategies r sm) k = statAt f sm k + statAt f (rowStrategies r []) k"
      by (rule statAt_rowStrategies [where d = d]) (simp_all add: fresh bump)
    then show ?case
      using Cons.IH [of "rowStrategies r sm"] by simp
  qed
  show ?thesis
    using gen [of sm] gen [of "[]"] by (simp add: statAt_Nil)
qed

lemma statAt_analyzeRows_append:
  assumes fresh: "\<And>k. f (freshStats k) = 0"
    and bump: "\<And>row s. f (bumpStats row s) = f s + d row"
  shows "statAt f (strategyMap (analyzeRows (A @ B))) k =
     statAt f (strategyMap (analyzeRows A)) k + statAt f (strategyMap (analyzeRows B)) k"
  using statAt_foldl_rowStrategies
          [where f = f and d = d and rows = B
             and sm = "foldl (\<lambda>sm r. rowStrategies r sm) [] A" and k = k, OF fresh bump]
  by (simp add: analyzeRows_fields)

text \<open>The four count fields.\<close>

lemma field_fresh:
  "hitCount (freshStats k) = 0" "humanReviewCount (freshStats k) = 0"
  "pendingCount (freshStats k) = 0" "violationCount (freshStats k) = 0"
  by (simp_all add: freshStats_def)

lemma field_bump:
  "hitCount (bumpStats row s) = hitCount s + 1"
  "humanReviewCount (bumpStats row s) = humanReviewCount s + (if isHumanSent row then 1 else 0)"
  "pendingCount (bumpStats row s) = pendingCount s + (if isHumanPending row then 1 else 0)"
  "violationCount (bumpStats row s) =
     violationCount s + (if isHumanViolation row then 1 else 0)"
  by (simp_all add: bumpStats_def)

lemma field_add:
  "hitCount (addStats a b) = hitCount a + hitCount b"
  "humanReviewCount (addStats a b) = humanReviewCount a + humanReviewCount b"
  "pendingCount (addStats a b) = pendingCount a + pendingCount b"
  "violationCount (addStats a b) = violationCount a + violationCount b"
  by (simp_all add: addStats_def)

lemma strategy_append:
  "statAt hitCount (strategyMap (analyzeRows (A @ B))) k =
     statAt hitCount (strategyMap (analyzeRows A)) k +
     statAt hitCount (strategyMap (analyzeRows B)) k"
  "statAt humanReviewCount (strategyMap (analyzeRows (A @ B))) k =
     statAt humanReviewCount (strategyMap (analyzeRows A)) k +
     statAt humanReviewCount (strategyMap (analyzeRows B)) k"
  "statAt pendingCount (strategyMap (analyzeRows (A @ B))) k =
     statAt pendingCount (strategyMap (analyzeRows A)) k +
     statAt pendingCount (strategyMap (analyzeRows B)) k"
  "statAt violationCount (strategyMap (analyzeRows (A @ B))) k =
     statAt violationCount (strategyMap (analyzeRows A)) k +
     statAt violationCount (strategyMap (analyzeRows B)) k"
proof -
  show "statAt hitCount (strategyMap (analyzeRows (A @ B))) k =
     statAt hitCount (strategyMap (analyzeRows A)) k +
     statAt hitCount (strategyMap (analyzeRows B)) k"
    by (rule statAt_analyzeRows_append [where d = "\<lambda>row. 1"]) (simp_all add: field_fresh field_bump)
  show "statAt humanReviewCount (strategyMap (analyzeRows (A @ B))) k =
     statAt humanReviewCount (strategyMap (analyzeRows A)) k +
     statAt humanReviewCount (strategyMap (analyzeRows B)) k"
    by (rule statAt_analyzeRows_append [where d = "\<lambda>row. if isHumanSent row then 1 else 0"])
       (simp_all add: field_fresh field_bump)
  show "statAt pendingCount (strategyMap (analyzeRows (A @ B))) k =
     statAt pendingCount (strategyMap (analyzeRows A)) k +
     statAt pendingCount (strategyMap (analyzeRows B)) k"
    by (rule statAt_analyzeRows_append [where d = "\<lambda>row. if isHumanPending row then 1 else 0"])
       (simp_all add: field_fresh field_bump)
  show "statAt violationCount (strategyMap (analyzeRows (A @ B))) k =
     statAt violationCount (strategyMap (analyzeRows A)) k +
     statAt violationCount (strategyMap (analyzeRows B)) k"
    by (rule statAt_analyzeRows_append [where d = "\<lambda>row. if isHumanViolation row then 1 else 0"])
       (simp_all add: field_fresh field_bump)
qed

text \<open>The keys of a strategy map, its distinct keys, and the name stored in an entry.\<close>

lemma keys_strategyStep:
  "fst ` set (strategyStep row sm raw) =
     fst ` set sm \<union> (if trim raw \<noteq> [] then {lookupOr STRATEGY_MAPPING (trim raw)} else {})"
  by (simp add: strategyStep_def Let_def dom_update)

lemma keys_foldl_strategyStep:
  "fst ` set (foldl (strategyStep row) sm raws) =
     fst ` set sm \<union> fst ` set (foldl (strategyStep row) [] raws)"
proof -
  have gen: "fst ` set (foldl (strategyStep row) sm raws) =
      fst ` set sm \<union>
      (\<Union>raw \<in> set raws. if trim raw \<noteq> [] then {lookupOr STRATEGY_MAPPING (trim raw)} else {})"
    for sm
    by (induction raws arbitrary: sm) (simp_all add: keys_strategyStep Un_assoc)
  show ?thesis
    using gen [of sm] gen [of "[]"] by simp
qed

lemma keys_rowStrategies:
  "fst ` set (rowStrategies row sm) = fst ` set sm \<union> fst ` set (rowStrategies row [])"
  using keys_foldl_strategyStep [of row sm "strategyTokens row"]
  by (simp add: rowStrategies_tokens)

lemma keys_foldl_rowStrategies:
  "fst ` set (foldl (\<lambda>sm r. rowStrategies r sm) sm rows) =
     fst ` set sm \<union> fst ` set (foldl (\<lambda>sm r. rowStrategies r sm) [] rows)"
proof -
  have gen: "fst ` set (foldl (\<lambda>sm r. rowStrategies r sm) sm rows) =
      fst ` set sm \<union> (\<Union>r \<in> set rows. fst ` set (rowStrategies r []))" for sm
  proof (induction rows arbitrary: sm)
    case Nil
    then show ?case by simp
  next
    case (Cons r rows)
    show ?case
      using Cons.IH [of "rowStrategies r sm"] keys_rowStrategies [of r sm]
      by (simp add: Un_assoc)
  qed
  show ?thesis
    using gen [of sm] gen [of "[]"] by simp
qed

lemma keys_analyzeRows_append:
  "fst ` set (strategyMap (analyzeRows (A @ B))) =
     fst ` set (strategyMap (analyzeRows A)) \<union> fst ` set (strategyMap (analyzeRows B))"
  using keys_foldl_rowStrategies [of "foldl (\<lambda>sm r. rowStrategies r sm) [] A" B]
  by (simp add: analyzeRows_fields)

lemma distinct_strategyMap: "distinct (map fst (strategyMap (analyzeRows rows)))"
proof -
  have step: "distinct (map fst (rowStrategies r sm))" if "distinct (map fst sm)" for r sm
  proof -
    have "distinct (map fst (foldl (strategyStep r) sm raws))" for raws
      by (rule foldl_invariant [where P = "\<lambda>sm. distinct (map fst sm)"])
         (simp_all add: strategyStep_def Let_def distinct_update that)
    then show ?thesis
      by (simp add: rowStrategies_tokens)
  qed
  have "distinct (map fst (foldl (\<lambda>sm r. rowStrategies r sm) [] rows))"
    by (rule foldl_invariant [where P = "\<lambda>sm. distinct (map fst sm)"])
       (simp_all add: step)
  then show ?thesis
    by (simp add: analyzeRows_fields)
qed

lemma named_update:
  assumes "\<forall>e \<in> set sm. name (snd e) = fst e" and "name v = k"
  shows "\<forall>e \<in> set (AList.update k v sm). name (snd e) = fst e"
  using set_update_subset [of k v sm] assms by auto

lemma named_strategyMap:
  "\<forall>e \<in> set (strategyMap (analyzeRows rows)). name (snd e) = fst e"
proof -
  have upd: "\<forall>e \<in> set (strategyStep r sm raw). name (snd e) = fst e"
    if sm: "\<forall>e \<in> set sm. name (snd e) = fst e" for r sm raw
  proof (cases "trim raw = []")
    case True
    with sm show ?thesis by (simp add: strategyStep_def)
  next
    case False
    define k0 where "k0 = lookupOr STRATEGY_MAPPING (trim raw)"
    have "name (getOrCreate sm k0) = k0"
    proof (cases "map_of sm k0")
      case None
      then show ?thesis by (simp add: getOrCreate_def freshStats_def)
    next
      case (Some s)
      then have "(k0, s) \<in> set sm" by (rule map_of_SomeD)
      with sm have "name s = k0" by force
      with Some show ?thesis by (simp add: getOrCreate_def)
    qed
    then have "name (bumpStats r (getOrCreate sm k0)) = k0"
      by (simp add: bumpStats_def)
    then have "\<forall>e \<in> set (AList.update k0 (bumpStats r (getOrCreate sm k0)) sm).
        name (snd e) = fst e"
      by (rule named_update [OF sm])
    then show ?thesis
      using False by (simp add: strategyStep_def Let_def k0_def)
  qed
  have step: "\<forall>e \<in> set (rowStrategies r sm). name (snd e) = fst e"
    if sm: "\<forall>e \<in> set sm. name (snd e) = fst e" for r sm
  proof -
    have "\<forall>e \<in> set (foldl (strategyStep r) sm raws). name (snd e) = fst e" for raws
      by (rule foldl_invariant [where P = "\<lambda>sm. \<forall>e \<in> set sm. name (snd e) = fst e"])
         (simp_all add: upd sm)
    then show ?thesis
      by (simp add: rowStrategies_tokens)
  qed
  have "\<forall>e \<in> set (foldl (\<lambda>sm r. rowStrategies r sm) [] rows). name (snd e) = fst e"
    by (rule foldl_invariant [where P = "\<lambda>sm. \<forall>e \<in> set sm. name (snd e) = fst e"])
       (simp_all add: step)
  then show ?thesis
    by (simp add: analyzeRows_fields)
qed

subsection \<open>The weekly merge of strategy maps\<close>

lemma statAt_mergeStrategy:
  assumes add: "\<And>a b. f (addStats a b) = f a + f b"
  shows "statAt f (mergeStrategy agg kv) k =
     statAt f agg k + (if k = fst kv then f (snd kv) else 0)"
  by (cases "map_of agg (fst kv)")
     (simp_all add: mergeStrategy_def statAt_def update_conv' add)

lemma statAt_Cons:
  "statAt f (kv # sm) k = (if k = fst kv then f (snd kv) else statAt f sm k)"
  by (cases kv) (simp add: statAt_def)

lemma statAt_absent: "k \<notin> fst ` set sm \<Longrightarrow> statAt f sm k = 0"
proof -
  assume "k \<notin> fst ` set sm"
  then have "map_of sm k = None"
    by (simp add: map_of_eq_None_iff)
  then show ?thesis by (simp add: statAt_def)
qed

lemma statAt_foldl_mergeStrategy:
  assumes add: "\<And>a b. f (addStats a b) = f a + f b"
    and "distinct (map fst sm)"
  shows "statAt f (foldl mergeStrategy agg sm) k = statAt f agg k + statAt f sm k"
  using assms(2)
proof (induction sm arbitrary: agg)
  case Nil
  then show ?case by (simp add: statAt_Nil)
next
  case (Cons kv sm)
  have "fst kv \<notin> fst ` set sm" and d: "distinct (map fst sm)"
    using Cons.prems by auto
  then have "statAt f sm (fst kv) = 0"
    by (simp add: statAt_absent)
  then show ?case
    using Cons.IH [OF d, of "mergeStrategy agg kv"]
    by (simp add: statAt_mergeStrategy [where f = f, OF add] statAt_Cons)
qed

lemma keys_mergeStrategy: "fst ` set (mergeStrategy agg kv) = insert (fst kv) (fst ` set agg)"
  by (cases "map_of agg (fst kv)") (simp_all add: mergeStrategy_def dom_update)

lemma keys_foldl_mergeStrategy:
  "fst ` set (foldl mergeStrategy agg sm) = fst ` set agg \<union> fst ` set sm"
  by (induction sm arbitrary: agg) (simp_all add: keys_mergeStrategy)

lemma named_foldl_mergeStrategy:
  assumes "\<forall>e \<in> set agg. name (snd e) = fst e" and "\<forall>e \<in> set sm. name (snd e) = fst e"
  shows "\<forall>e \<in> set (foldl mergeStrategy agg sm). name (snd e) = fst e"
  using assms
proof (induction sm arbitrary: agg)
  case Nil
  then show ?case by simp
next
  case (Cons kv sm)
  have kv: "name (snd kv) = fst kv"
    using Cons.prems(2) by simp
  have "\<forall>e \<in> set (mergeStrategy agg kv). name (snd e) = fst e"
  proof (cases "map_of agg (fst kv)")
    case None
    then show ?thesis
      using named_update [OF Cons.prems(1) kv] by (simp add: mergeStrategy_def)
  next
    case (Some exist)
    then have "(fst kv, exist) \<in> set agg" by (rule map_of_SomeD)
    with Cons.prems(1) have "name exist = fst kv" by force
    then have "name (addStats exist (snd kv)) = fst kv"
      by (simp add: addStats_def)
    then show ?thesis
      using named_update [OF Cons.prems(1), of "addStats exist (snd kv)" "fst kv"] Some
      by (simp add: mergeStrategy_def)
  qed
  then show ?case
    using Cons.IH [of "mergeStrategy agg kv"] Cons.prems(2) by simp
qed

lemma weeklyLoop_maps:
  "acc_aggStrategyMap (foldl (dayStep rawData) acc ds) =
     foldl (\<lambda>agg d. foldl mergeStrategy agg (strategyMap (analyzeRows (dayRows rawData d))))
       (acc_aggStrategyMap acc) ds"
  "acc_aggTagMap (foldl (dayStep rawData) acc ds) =
     foldl (\<lambda>agg d. foldl mergeTag agg (tagMap (analyzeRows (dayRows rawData d))))
       (acc_aggTagMap acc) ds"
  by (induction ds arbitrary: acc) (simp_all add: dayStep_def Let_def)

text \<open>The merged map of the week and the map of one aggregation over the retained rows
  have the same counts, the same keys and the same names.\<close>

lemma weekly_strategy_statAt:
  assumes fresh: "\<And>k. f (freshStats k) = 0"
    and bump: "\<And>row s. f (bumpStats row s) = f s + d row"
    and add: "\<And>a b. f (addStats a b) = f a + f b"
  shows "statAt f (acc_aggStrategyMap (weeklyLoop rawData ds)) k =
     statAt f (strategyMap (analyzeRows (retainedRows rawData ds))) k"
proof -
  have merged: "statAt f
      (foldl (\<lambda>agg d. foldl mergeStrategy agg (strategyMap (analyzeRows (dayRows rawData d))))
         agg ds) k =
      statAt f agg k + (\<Sum>d\<leftarrow>ds. statAt f (strategyMap (analyzeRows (dayRows rawData d))) k)"
    for agg
    by (induction ds arbitrary: agg)
       (simp_all add: statAt_foldl_mergeStrategy [where f = f, OF add] distinct_strategyMap)
  have single: "statAt f (strategyMap (analyzeRows (retainedRows rawData ds))) k =
      (\<Sum>d\<leftarrow>ds. statAt f (strategyMap (analyzeRows (dayRows rawData d))) k)"
  proof (induction ds)
    case Nil
    then show ?case
      by (simp add: retainedRows_def analyzeRows_fields statAt_Nil)
  next
    case (Cons day ds)
    have "statAt f (strategyMap (analyzeRows (dayRows rawData day @ retainedRows rawData ds))) k =
        statAt f (strategyMap (analyzeRows (dayRows rawData day))) k +
        statAt f (strategyMap (analyzeRows (retainedRows rawData ds))) k"
      by (rule statAt_analyzeRows_append [where d = d]) (simp_all add: fresh bump)
    with Cons.IH show ?case
      by (simp add: retainedRows_def)
  qed
  show ?thesis
    using merged [of "[]"] single
    by (simp add: weeklyLoop_def weeklyLoop_maps initAcc_def statAt_Nil)
qed

lemma weekly_strategy_keys:
  "fst ` set (acc_aggStrategyMap (weeklyLoop rawData ds)) =
     fst ` set (strategyMap (analyzeRows (retainedRows rawData ds)))"
proof -
  have merged: "fst ` set
      (foldl (\<lambda>agg d. foldl mergeStrategy agg (strategyMap (analyzeRows (dayRows rawData d))))
         agg ds) =
      fst ` set agg \<union> (\<Union>d \<in> set ds. fst ` set (strategyMap (analyzeRows (dayRows rawData d))))"
    for agg
    by (induction ds arbitrary: agg) (simp_all add: keys_foldl_mergeStrategy Un_assoc)
  have single: "fst ` set (strategyMap (analyzeRows (retainedRows rawData ds))) =
      (\<Union>d \<in> set ds. fst ` set (strategyMap (analyzeRows (dayRows rawData d))))"
  proof (induction ds)
    case Nil
    then show ?case
      by (simp add: retainedRows_def analyzeRows_fields)
  next
    case (Cons d ds)
    then show ?case
      using keys_analyzeRows_append [of "dayRows rawData d" "retainedRows rawData ds"]
      by (simp add: retainedRows_def)
  qed
  show ?thesis
    using merged [of "[]"] single
    by (simp add: weeklyLoop_def weeklyLoop_maps initAcc_def)
qed

lemma weekly_strategy_named:
  "\<forall>e \<in> set (acc_aggStrategyMap (weeklyLoop rawData ds)). name (snd e) = fst e"
proof -
  have "\<forall>e \<in> set
      (foldl (\<lambda>agg d. foldl mergeStrategy agg (strategyMap (analyzeRows (dayRows rawData d))))
         [] ds). name (snd e) = fst e"
  proof (rule foldl_invariant [where P = "\<lambda>agg. \<forall>e \<in> set agg. name (snd e) = fst e"])
    fix agg :: "(jskey \<times> StrategyStats) list" and day
    assume "\<forall>e \<in> set agg. name (snd e) = fst e"
    then show "\<forall>e \<in> set (foldl mergeStrategy agg
        (strategyMap (analyzeRows (dayRows rawData day)))). name (snd e) = fst e"
      by (rule named_foldl_mergeStrategy) (rule named_strategyMap)
  next
    show "\<forall>e \<in> set ([] :: (jskey \<times> StrategyStats) list). name (snd e) = fst e"
      by simp
  qed
  then show ?thesis
    by (simp add: weeklyLoop_def weeklyLoop_maps initAcc_def)
qed

lemma stats_eqI:
  fixes a b :: StrategyStats
  assumes "name a = name b" "hitCount a = hitCount b"
    "humanReviewCount a = humanReviewCount b" "pendingCount a = pendingCount b"
    "violationCount a = violationCount b"
  shows "a = b"
  using assms by simp

lemma weekly_strategy_map_of:
  "map_of (acc_aggStrategyMap (weeklyLoop rawData ds)) =
   map_of (strategyMap (analyzeRows (retainedRows rawData ds)))"
proof
  fix k
  let ?W = "acc_aggStrategyMap (weeklyLoop rawData ds)"
  let ?S = "strategyMap (analyzeRows (retainedRows rawData ds))"
  have eqs: "statAt hitCount ?W k = statAt hitCount ?S k"
    "statAt humanReviewCount ?W k = statAt humanReviewCount ?S k"
    "statAt pendingCount ?W k = statAt pendingCount ?S k"
    "statAt violationCount ?W k = statAt violationCount ?S k"
  proof -
    show "statAt hitCount ?W k = statAt hitCount ?S k"
      by (rule weekly_strategy_statAt [where d = "\<lambda>row. 1"])
         (simp_all add: field_fresh field_bump field_add)
    show "statAt humanReviewCount ?W k = statAt humanReviewCount ?S k"
      by (rule weekly_strategy_statAt [where d = "\<lambda>row. if isHumanSent row then 1 else 0"])
         (simp_all add: field_fresh field_bump field_add)
    show "statAt pendingCount ?W k = statAt pendingCount ?S k"
      by (rule weekly_strategy_statAt [where d = "\<lambda>row. if isHumanPending row then 1 else 0"])
         (simp_all add: field_fresh field_bump field_add)
    show "statAt violationCount ?W k = statAt violationCount ?S k"
      by (rule weekly_strategy_statAt [where d = "\<lambda>row. if isHumanViolation row then 1 else 0"])
         (simp_all add: field_fresh field_bump field_add)
  qed
  show "map_of ?W k = map_of ?S k"
  proof (cases "k \<in> fst ` set ?W")
    case False
    then have "map_of ?W k = None" "map_of ?S k = None"
      using weekly_strategy_keys [of rawData ds] by (simp_all add: map_of_eq_None_iff)
    then show ?thesis by simp
  next
    case True
    then obtain a where a: "map_of ?W k = Some a"
      by (cases "map_of ?W k") (simp_all add: map_of_eq_None_iff)
    from True obtain b where b: "map_of ?S k = Some b"
      using weekly_strategy_keys [of rawData ds]
      by (cases "map_of ?S k") (simp_all add: map_of_eq_None_iff)
    have "name a = k"
      using weekly_strategy_named [of rawData ds] map_of_SomeD [OF a] by force
    moreover have "name b = k"
      using named_strategyMap [of "retainedRows rawData ds"] map_of_SomeD [OF b] by force
    ultimately have "a = b"
      using eqs a b by (intro stats_eqI) (simp_all add: statAt_def)
    with a b show ?thesis by simp
  qed
qed

subsection \<open>Tag maps\<close>

lemma tag_count_formula:
  "getOrZero (tagMap (analyzeRows rows)) t =
     length (filter (\<lambda>r. isHumanViolation r \<and> t \<in> set (canonicalTags r)) rows)"
  using getOrZero_foldl_rowTags [of "[]" rows t]
  by (simp add: analyzeRows_fields getOrZero_def)

lemma keys_foldl_tagStep: "fst ` set (foldl tagStep tm ts) = fst ` set tm \<union> set ts"
  by (induction ts arbitrary: tm) (simp_all add: tagStep_def dom_update)

lemma keys_rowTags:
  "fst ` set (rowTags row tm) =
     fst ` set tm \<union> (if isHumanViolation row then set (canonicalTags row) else {})"
  by (simp add: rowTags_def keys_foldl_tagStep uniqueTagsInRow_canonical)

lemma keys_tagMap:
  "fst ` set (tagMap (analyzeRows rows)) =
     (\<Union>r \<in> set rows. if isHumanViolation r then set (canonicalTags r) else {})"
proof -
  have "fst ` set (foldl (\<lambda>tm r. rowTags r tm) tm rows) =
      fst ` set tm \<union> (\<Union>r \<in> set rows. if isHumanViolation r then set (canonicalTags r) else {})"
    for tm
    by (induction rows arbitrary: tm) (simp_all add: keys_rowTags Un_assoc)
  from this [of "[]"] show ?thesis
    by (simp add: analyzeRows_fields)
qed

lemma distinct_tagMap: "distinct (map fst (tagMap (analyzeRows rows)))"
proof -
  have step: "distinct (map fst (rowTags r tm))" if "distinct (map fst tm)" for r tm
  proof -
    have "distinct (map fst (foldl tagStep tm ts))" for ts
      by (rule foldl_invariant [where P = "\<lambda>tm. distinct (map fst tm)"])
         (simp_all add: tagStep_def distinct_update that)
    with that show ?thesis
      by (simp add: rowTags_def)
  qed
  have "distinct (map fst (foldl (\<lambda>tm r. rowTags r tm) [] rows))"
    by (rule foldl_invariant [where P = "\<lambda>tm. distinct (map fst tm)"])
       (simp_all add: step)
  then show ?thesis
    by (simp add: analyzeRows_fields)
qed

lemma getOrZero_Cons:
  "getOrZero (tc # tm) t = (if t = fst tc then snd tc else getOrZero tm t)"
  by (cases tc) (simp add: getOrZero_def)

lemma getOrZero_foldl_mergeTag:
  assumes "distinct (map fst tm)"
  shows "getOrZero (foldl mergeTag agg tm) t = getOrZero agg t + getOrZero tm t"
  using assms
proof (induction tm arbitrary: agg)
  case Nil
  then show ?case by (simp add: getOrZero_def)
next
  case (Cons tc tm)
  have "fst tc \<notin> fst ` set tm" and d: "distinct (map fst tm)"
    using Cons.prems by auto
  then have z: "getOrZero tm (fst tc) = 0"
    by (simp add: getOrZero_fresh)
  have m: "getOrZero (mergeTag agg tc) t = getOrZero agg t + (if t = fst tc then snd tc else 0)"
    by (simp add: mergeTag_def getOrZero_def update_conv')
  show ?case
    using Cons.IH [OF d, of "mergeTag agg tc"] z m
    by (simp add: getOrZero_Cons)
qed

lemma keys_foldl_mergeTag: "fst ` set (foldl mergeTag agg tm) = fst ` set agg \<union> fst ` set tm"
  by (induction tm arbitrary: agg) (simp_all add: mergeTag_def dom_update)

lemma map_of_getOrZero:
  "map_of tm t = (if t \<in> fst ` set tm then Some (getOrZero tm t) else None)"
proof (cases "map_of tm t")
  case None
  then show ?thesis by (simp add: map_of_eq_None_iff)
next
  case (Some c)
  then have "(t, c) \<in> set tm" by (rule map_of_SomeD)
  then have "t \<in> fst ` set tm" by force
  with Some show ?thesis by (simp add: getOrZero_def)
qed

lemma weekly_tag_map_of:
  "map_of (acc_aggTagMap (weeklyLoop rawData ds)) =
   map_of (tagMap (analyzeRows (retainedRows rawData ds)))"
proof
  fix t
  let ?W = "acc_aggTagMap (weeklyLoop rawData ds)"
  let ?S = "tagMap (analyzeRows (retainedRows rawData ds))"
  have mergedC: "getOrZero
      (foldl (\<lambda>agg d. foldl mergeTag agg (tagMap (analyzeRows (dayRows rawData d)))) agg ds) t =
      getOrZero agg t + (\<Sum>d\<leftarrow>ds. getOrZero (tagMap (analyzeRows (dayRows rawData d))) t)"
    for agg
    by (induction ds arbitrary: agg)
       (simp_all add: getOrZero_foldl_mergeTag distinct_tagMap)
  have mergedK: "fst ` set
      (foldl (\<lambda>agg d. foldl mergeTag agg (tagMap (analyzeRows (dayRows rawData d)))) agg ds) =
      fst ` set agg \<union> (\<Union>d \<in> set ds. fst ` set (tagMap (analyzeRows (dayRows rawData d))))"
    for agg
    by (induction ds arbitrary: agg) (simp_all add: keys_foldl_mergeTag Un_assoc)
  have singleC: "getOrZero ?S t =
      (\<Sum>d\<leftarrow>ds. getOrZero (tagMap (analyzeRows (dayRows rawData d))) t)"
    by (induction ds) (simp_all add: tag_count_formula retainedRows_def)
  have singleK: "fst ` set ?S =
      (\<Union>d \<in> set ds. fst ` set (tagMap (analyzeRows (dayRows rawData d))))"
    by (auto simp: keys_tagMap retainedRows_def)
  have c: "getOrZero ?W t = getOrZero ?S t"
    using mergedC [of "[]"] singleC
    by (simp add: weeklyLoop_def weeklyLoop_maps initAcc_def getOrZero_def)
  have k: "fst ` set ?W = fst ` set ?S"
    using mergedK [of "[]"] singleK
    by (simp add: weeklyLoop_def weeklyLoop_maps initAcc_def)
  show "map_of ?W t = map_of ?S t"
    by (simp add: map_of_getOrZero [of ?W] map_of_getOrZero [of ?S] c k)
qed

subsection \<open>The retained rows\<close>

lemma mset_filter_disjoint:
  assumes "\<And>x. \<not> (P x \<and> Q x)"
  shows "mset (filter P xs) + mset (filter Q xs) = mset (filter (\<lambda>x. P x \<or> Q x) xs)"
  using assms by (induction xs) auto

lemma mset_retainedRows:
  assumes "distinct ds"
  shows "mset (retainedRows rawData ds) =
     mset (filter (\<lambda>r. \<exists>d \<in> set ds. extractDate (r COL_ASYNC_TIME) = Some d) rawData)"
  using assms
proof (induction ds)
  case Nil
  then show ?case by (simp add: retainedRows_def)
next
  case (Cons d ds)
  have dis: "\<not> (extractDate (r COL_ASYNC_TIME) = Some d \<and>
      (\<exists>d' \<in> set ds. extractDate (r COL_ASYNC_TIME) = Some d'))" for r
    using Cons.prems by auto
  have "mset (retainedRows rawData (d # ds)) =
      mset (filter (\<lambda>r. extractDate (r COL_ASYNC_TIME) = Some d) rawData) +
      mset (filter (\<lambda>r. \<exists>d' \<in> set ds. extractDate (r COL_ASYNC_TIME) = Some d') rawData)"
    using Cons by (simp add: retainedRows_def dayRows_def)
  also have "\<dots> = mset (filter (\<lambda>r. extractDate (r COL_ASYNC_TIME) = Some d \<or>
      (\<exists>d' \<in> set ds. extractDate (r COL_ASYNC_TIME) = Some d')) rawData)"
    by (rule mset_filter_disjoint) (rule dis)
  finally show ?case by simp
qed

text \<open>
  C10.  The aggregator is additive over the concatenation of row lists: each count of
  the basic statistics, the four count fields of each strategy entry (0 where a key has
  no entry) and the count of each tag (0 likewise) of the concatenation are the sums of
  those of the two parts, and the keys are the union of the keys.  Hence the strategy
  map and the tag map that the weekly loop merges from the days are, as maps from keys
  to entries, those of one aggregation over the rows of the retained dates; these rows
  are, for distinct dates, the rows of the input whose date is retained.
\<close>

theorem C10_additive:
  "totalRows (analyzeRows (A @ B)) = totalRows (analyzeRows A) + totalRows (analyzeRows B) \<and>
   machineRejectCount (analyzeRows (A @ B)) =
     machineRejectCount (analyzeRows A) + machineRejectCount (analyzeRows B) \<and>
   recallCount (analyzeRows (A @ B)) = recallCount (analyzeRows A) + recallCount (analyzeRows B) \<and>
   humanViolationCount (analyzeRows (A @ B)) =
     humanViolationCount (analyzeRows A) + humanViolationCount (analyzeRows B) \<and>
   blackSampleTotal (analyzeRows (A @ B)) =
     blackSampleTotal (analyzeRows A) + blackSampleTotal (analyzeRows B) \<and>
   statAt hitCount (strategyMap (analyzeRows (A @ B))) k =
     statAt hitCount (strategyMap (analyzeRows A)) k +
     statAt hitCount (strategyMap (analyzeRows B)) k \<and>
   statAt humanReviewCount (strategyMap (analyzeRows (A @ B))) k =
     statAt humanReviewCount (strategyMap (analyzeRows A)) k +
     statAt humanReviewCount (strategyMap (analyzeRows B)) k \<and>
   statAt pendingCount (strategyMap (analyzeRows (A @ B))) k =
     statAt pendingCount (strategyMap (analyzeRows A)) k +
     statAt pendingCount (strategyMap (analyzeRows B)) k \<and>
   statAt violationCount (strategyMap (analyzeRows (A @ B))) k =
     statAt violationCount (strategyMap (analyzeRows A)) k +
     statAt violationCount (strategyMap (analyzeRows B)) k \<and>
   fst ` set (strategyMap (analyzeRows (A @ B))) =
     fst ` set (strategyMap (analyzeRows A)) \<union> fst ` set (strategyMap (analyzeRows B)) \<and>
   getOrZero (tagMap (analyzeRows (A @ B))) t =
     getOrZero (tagMap (analyzeRows A)) t + getOrZero (tagMap (analyzeRows B)) t \<and>
   fst ` set (tagMap (analyzeRows (A @ B))) =
     fst ` set (tagMap (analyzeRows A)) \<union> fst ` set (tagMap (analyzeRows B)) \<and>
   map_of (acc_aggStrategyMap (weeklyLoop rawData ds)) =
     map_of (strategyMap (analyzeRows (retainedRows rawData ds))) \<and>
   map_of (acc_aggTagMap (weeklyLoop rawData ds)) =
     map_of (tagMap (analyzeRows (retainedRows rawData ds))) \<and>
   (distinct ds \<longrightarrow>
      mset (retainedRows rawData ds) =
        mset (filter (\<lambda>r. \<exists>d \<in> set ds. extractDate (r COL_ASYNC_TIME) = Some d) rawData))"
proof -
  have basic:
    "totalRows (analyzeRows (A @ B)) = totalRows (analyzeRows A) + totalRows (analyzeRows B)"
    "machineRejectCount (analyzeRows (A @ B)) =
       machineRejectCount (analyzeRows A) + machineRejectCount (analyzeRows B)"
    "recallCount (analyzeRows (A @ B)) = recallCount (analyzeRows A) + recallCount (analyzeRows B)"
    "humanViolationCount (analyzeRows (A @ B)) =
       humanViolationCount (analyzeRows A) + humanViolationCount (analyzeRows B)"
    "blackSampleTotal (analyzeRows (A @ B)) =
       blackSampleTotal (analyzeRows A) + blackSampleTotal (analyzeRows B)"
    by (simp_all add: analyzeRows_fields)
  have tags:
    "getOrZero (tagMap (analyzeRows (A @ B))) t =
       getOrZero (tagMap (analyzeRows A)) t + getOrZero (tagMap (analyzeRows B)) t"
    "fst ` set (tagMap (analyzeRows (A @ B))) =
       fst ` set (tagMap (analyzeRows A)) \<union> fst ` set (tagMap (analyzeRows B))"
    by (auto simp: tag_count_formula keys_tagMap)
  have rows: "distinct ds \<longrightarrow>
      mset (retainedRows rawData ds) =
        mset (filter (\<lambda>r. \<exists>d \<in> set ds. extractDate (r COL_ASYNC_TIME) = Some d) rawData)"
    by (simp add: mset_retainedRows)
  from basic strategy_append [of A B k] keys_analyzeRows_append [of A B] tags
    weekly_strategy_map_of [of rawData ds] weekly_tag_map_of [of rawData ds] rows
  show ?thesis by blast
qed

theorem C10_witness:
  "statAt hitCount (strategyMap (analyzeRows ([scenarioRow1] @ [scenarioRow2, scenarioRow3])))
     (Str (js ''s1'')) = 2 \<and>
   statAt hitCount (strategyMap (analyzeRows [scenarioRow1])) (Str (js ''s1'')) = 1 \<and>
   statAt hitCount (strategyMap (analyzeRows [scenarioRow2, scenarioRow3])) (Str (js ''s1'')) = 1 \<and>
   distinct [scenarioDate] \<and>
   map_of (acc_aggStrategyMap (weeklyLoop scenarioRows [scenarioDate])) (Str (js ''s1'')) =
     Some scenarioS1 \<and>
   map_of (acc_aggTagMap (weeklyLoop scenarioRows [scenarioDate])) (Str (js ''t1'')) = Some 1"
proof -
  have whole: "statAt hitCount
      (strategyMap (analyzeRows ([scenarioRow1] @ [scenarioRow2, scenarioRow3])))
      (Str (js ''s1'')) = 2"
    using scenario_analyzeRows
    by (simp add: scenarioRows_def scenarioStats_def scenarioS1_def statAt_def)
  have part: "statAt hitCount (strategyMap (analyzeRows [scenarioRow1])) (Str (js ''s1'')) = 1"
    by (simp add: statAt_def scenario_defs aggregate_defs string_defs)
  have ret: "retainedRows scenarioRows [scenarioDate] = scenarioRows"
    by (simp add: retainedRows_def scenario_dayRows)
  from C10_additive
         [of "[scenarioRow1]" "[scenarioRow2, scenarioRow3]" "Str (js ''s1'')" "Str (js ''t1'')"
             scenarioRows "[scenarioDate]"]
       whole part ret
  show ?thesis
    by (simp add: scenario_analyzeRows scenarioStats_def)
qed

end
